theory Spec2Isabelle
  imports Complex_Main "HOL-Library.Sublist"
begin

section \<open>Text\<close>

text \<open>
  Python's \<^verbatim>\<open>str\<close> is a sequence of code points. It is modelled as \<open>string\<close>, each
  \<open>char\<close> standing for the code point of the same number, so the model covers the texts
  whose code points are below 256. The three character classes below are the ones of
  Python 3 on that range: \<^verbatim>\<open>\d\<close> (decimal digits), \<^verbatim>\<open>\w\<close> (alphanumerics and the
  underscore) and the whitespace that \<^verbatim>\<open>str.strip()\<close> removes.
\<close>

definition code_point :: "char \<Rightarrow> nat" where
  "code_point c = of_char c"

definition is_decimal :: "char \<Rightarrow> bool" where
  "is_decimal c = (48 \<le> code_point c \<and> code_point c \<le> 57)"

definition is_word :: "char \<Rightarrow> bool" where
  "is_word c = (let n = code_point c in
     (48 \<le> n \<and> n \<le> 57) \<or> (65 \<le> n \<and> n \<le> 90) \<or> n = 95 \<or> (97 \<le> n \<and> n \<le> 122) \<or>
     n = 170 \<or> n = 178 \<or> n = 179 \<or> n = 181 \<or> n = 185 \<or> n = 186 \<or>
     (188 \<le> n \<and> n \<le> 190) \<or> (192 \<le> n \<and> n \<le> 214) \<or> (216 \<le> n \<and> n \<le> 246) \<or>
     (248 \<le> n \<and> n \<le> 255))"

definition is_space :: "char \<Rightarrow> bool" where
  "is_space c = (let n = code_point c in
     (9 \<le> n \<and> n \<le> 13) \<or> (28 \<le> n \<and> n \<le> 32) \<or> n = 133 \<or> n = 160)"

text \<open>\<^verbatim>\<open>sep.join(xs)\<close>\<close>

fun join :: "string \<Rightarrow> string list \<Rightarrow> string" where
  "join sep [] = []"
| "join sep [x] = x"
| "join sep (x # y # ys) = x @ sep @ join sep (y # ys)"

text \<open>\<^verbatim>\<open>s.strip()\<close> and \<^verbatim>\<open>s.startswith((p, q))\<close>\<close>

definition strip :: "string \<Rightarrow> string" where
  "strip s = rev (dropWhile is_space (rev (dropWhile is_space s)))"

definition startswith :: "string \<Rightarrow> string list \<Rightarrow> bool" where
  "startswith s ps = list_ex (\<lambda>p. prefix p s) ps"

text \<open>\<^verbatim>\<open>x in s\<close> for two strings: \<open>x\<close> occurs in \<open>s\<close> as a contiguous run.\<close>

fun contains :: "string \<Rightarrow> string \<Rightarrow> bool" where
  "contains [] x = (x = [])"
| "contains (c # cs) x = (prefix x (c # cs) \<or> contains cs x)"

text \<open>\<^verbatim>\<open>str(n)\<close> for an integer, as an f-string writes it.\<close>

definition digit_char :: "nat \<Rightarrow> char" where
  "digit_char d = ''0123456789'' ! d"

fun str_nat :: "nat \<Rightarrow> string" where
  "str_nat n = (if n < 10 then [digit_char n] else str_nat (n div 10) @ [digit_char (n mod 10)])"

declare str_nat.simps [simp del]

definition str_int :: "int \<Rightarrow> string" where
  "str_int i = (if i < 0 then CHR ''-'' # str_nat (nat (- i)) else str_nat (nat i))"

section \<open>Markup removal\<close>

text \<open>
  \<^verbatim>\<open>re.sub(r'<.*?>', ' ', text)\<close>. At a \<^verbatim>\<open><\<close> the lazy \<^verbatim>\<open>.*?\<close> takes as few
  characters as it can before a \<^verbatim>\<open>>\<close>; the dot does not match a line feed, so a line
  feed before the first \<^verbatim>\<open>>\<close> makes the attempt at this \<^verbatim>\<open><\<close> fail. \<open>tag_end\<close>
  returns the text after the tag.
\<close>

fun tag_end :: "string \<Rightarrow> string option" where
  "tag_end [] = None"
| "tag_end (c # cs) =
     (if c = CHR ''>'' then Some cs
      else if c = CHR 0x0A then None
      else tag_end cs)"

lemma tag_end_length: "tag_end cs = Some r \<Longrightarrow> length r < Suc (length cs)"
  by (induction cs) (auto split: if_splits)

function re_sub_tags :: "string \<Rightarrow> string" where
  "re_sub_tags [] = []"
| "re_sub_tags (c # cs) =
     (if c = CHR ''<'' then
        (case tag_end cs of
           Some r \<Rightarrow> CHR '' '' # re_sub_tags r
         | None \<Rightarrow> c # re_sub_tags cs)
      else c # re_sub_tags cs)"
  by pat_completeness auto
termination
  by (relation "measure length") (auto dest: tag_end_length)

section \<open>Verse markers\<close>

text \<open>
  The pattern \<^verbatim>\<open>\b(TEXT \d+|TEXTS \d+-\d+)\b\<close>, matched as a backtracking matcher does:
  the alternatives in their order, \<^verbatim>\<open>\d+\<close> greedy, giving digits back one at a time
  when what follows fails. A position is a word boundary when exactly one of its two
  neighbours is a word character; the start and the end of the text count as not one.
\<close>

definition head :: "string \<Rightarrow> char option" where
  "head s = (case s of [] \<Rightarrow> None | c # _ \<Rightarrow> Some c)"

definition word_boundary :: "char option \<Rightarrow> char option \<Rightarrow> bool" where
  "word_boundary a b =
     ((case a of None \<Rightarrow> False | Some c \<Rightarrow> is_word c) \<noteq>
      (case b of None \<Rightarrow> False | Some c \<Rightarrow> is_word c))"

fun first_some :: "'a option list \<Rightarrow> 'a option" where
  "first_some [] = None"
| "first_some (None # xs) = first_some xs"
| "first_some (Some x # xs) = Some x"

text \<open>
  \<^verbatim>\<open>\d+\<close> followed by the rest \<open>k\<close> of the pattern: the longest run of digits first,
  then shorter ones down to one digit. \<open>k\<close> receives the last character taken and the
  text left, and returns how many characters it matched.
\<close>

definition digits_plus :: "string \<Rightarrow> (char \<Rightarrow> string \<Rightarrow> nat option) \<Rightarrow> nat option" where
  "digits_plus s k =
     first_some (map (\<lambda>n. map_option (\<lambda>r. n + r) (k (s ! (n - 1)) (drop n s)))
                     (rev [1..<Suc (length (takeWhile is_decimal s))]))"

definition end_boundary :: "char \<Rightarrow> string \<Rightarrow> nat option" where
  "end_boundary p r = (if word_boundary (Some p) (head r) then Some 0 else None)"

definition match_text :: "string \<Rightarrow> nat option" where
  "match_text s =
     (if prefix ''TEXT '' s then map_option (\<lambda>n. 5 + n) (digits_plus (drop 5 s) end_boundary)
      else None)"

definition dash_digits :: "char \<Rightarrow> string \<Rightarrow> nat option" where
  "dash_digits p r =
     (case r of
        [] \<Rightarrow> None
      | c # r' \<Rightarrow> if c = CHR ''-'' then map_option Suc (digits_plus r' end_boundary) else None)"

definition match_texts :: "string \<Rightarrow> nat option" where
  "match_texts s =
     (if prefix ''TEXTS '' s then map_option (\<lambda>n. 6 + n) (digits_plus (drop 6 s) dash_digits)
      else None)"

text \<open>The length of the match that starts here, \<open>prev\<close> being the character before.\<close>

definition match_marker :: "char option \<Rightarrow> string \<Rightarrow> nat option" where
  "match_marker prev s =
     (if word_boundary prev (head s) then
        (case match_text s of Some n \<Rightarrow> Some n | None \<Rightarrow> match_texts s)
      else None)"

lemma first_some_map_Some:
  "first_some (map f xs) = Some y \<Longrightarrow> \<exists>x \<in> set xs. f x = Some y"
proof (induction xs)
  case Nil
  then show ?case by simp
next
  case (Cons a xs)
  then show ?case by (cases "f a") auto
qed

lemma digits_plus_pos: "digits_plus s k = Some n \<Longrightarrow> 0 < n"
  unfolding digits_plus_def by (auto dest!: first_some_map_Some)

lemma match_marker_pos: "match_marker prev s = Some n \<Longrightarrow> 0 < n"
  by (auto simp: match_marker_def match_text_def match_texts_def split: if_splits option.splits)

text \<open>
  \<^verbatim>\<open>re.split(pattern, s)\<close> with the pattern's one capturing group: the text before a
  match, the matched text, then the split of what follows the match; the search resumes
  where the match ended. \<open>piece\<close> is the text read since the last match.
\<close>

function re_split_from :: "char option \<Rightarrow> string \<Rightarrow> string \<Rightarrow> string list" where
  "re_split_from prev piece [] = [piece]"
| "re_split_from prev piece (c # cs) =
     (case match_marker prev (c # cs) of
        Some n \<Rightarrow> piece # take n (c # cs) #
                 re_split_from (Some ((c # cs) ! (n - 1))) [] (drop n (c # cs))
      | None \<Rightarrow> re_split_from (Some c) (piece @ [c]) cs)"
  by pat_completeness auto
termination
  by (relation "measure (\<lambda>(prev, piece, s). length s)") (auto dest: match_marker_pos)

definition re_split :: "string \<Rightarrow> string list" where
  "re_split s = re_split_from None [] s"

section \<open>Errors, JSON values and files\<close>

text \<open>
  The exceptions the program can meet. \<open>APIError\<close> is the generative client's own error
  class. Python's handlers select by class: \<^verbatim>\<open>JSONDecodeError\<close> and
  \<^verbatim>\<open>UnicodeDecodeError\<close> are subclasses of \<^verbatim>\<open>ValueError\<close>, \<^verbatim>\<open>RecursionError\<close> is
  not, and every class here but \<^verbatim>\<open>KeyboardInterrupt\<close> is a subclass of
  \<^verbatim>\<open>Exception\<close>.
\<close>

datatype exn =
    FileNotFoundError
  | PermissionError
  | UnicodeDecodeError
  | JSONDecodeError
  | TypeError
  | KeyError
  | AttributeError
  | IndexError
  | ValueError string
  | RecursionError
  | APIError
  | KeyboardInterrupt


fun is_Exception :: "exn \<Rightarrow> bool" where
  "is_Exception KeyboardInterrupt = False"
| "is_Exception e = True"

datatype json =
    JNull
  | JBool bool
  | JInt int
  | JFloat rat
  | JStr string
  | JArr "json list"
  | JObj "(string \<times> json) list"

text \<open>
  What opening a file for reading as UTF-8 and \<^verbatim>\<open>json.load\<close> make of it: the open is
  refused, the bytes are not UTF-8, the text is not JSON (an empty file is not), the text
  is JSON with an integer of more digits than the interpreter converts (4300, a plain
  \<^verbatim>\<open>ValueError\<close>), the text is JSON nested deeper than the decoder's recursion goes
  (\<^verbatim>\<open>RecursionError\<close>), or a value is read. A path with no file is absent from the map.
  \<^verbatim>\<open>json.dump\<close> to a path leaves a file that reads back as the value written; writing
  is taken to succeed.
\<close>

datatype file_content =
    NoPermission
  | NotUtf8
  | NotJson
  | DigitsOverLimit
  | NestedTooDeep
  | Json json

type_synonym files = "string \<rightharpoonup> file_content"

definition read_json :: "files \<Rightarrow> string \<Rightarrow> exn + json" where
  "read_json fs path =
     (case fs path of
        None \<Rightarrow> Inl FileNotFoundError
      | Some NoPermission \<Rightarrow> Inl PermissionError
      | Some NotUtf8 \<Rightarrow> Inl UnicodeDecodeError
      | Some NotJson \<Rightarrow> Inl JSONDecodeError
      | Some DigitsOverLimit \<Rightarrow>
          Inl (ValueError ''Exceeds the limit (4300 digits) for integer string conversion'')
      | Some NestedTooDeep \<Rightarrow> Inl RecursionError
      | Some (Json v) \<Rightarrow> Inr v)"

definition write_json :: "files \<Rightarrow> string \<Rightarrow> json \<Rightarrow> files" where
  "write_json fs path v = fs(path \<mapsto> Json v)"

section \<open>The generative service and the world\<close>

record AugmentedSastricName =
  name :: string
  definition' :: string
  context' :: string
  references :: "string list"
  category :: string
  gender :: string

definition model_dump :: "AugmentedSastricName \<Rightarrow> json" where
  "model_dump n =
     JObj [(''name'', JStr (name n)), (''definition'', JStr (definition' n)),
           (''context'', JStr (context' n)), (''references'', JArr (map JStr (references n))),
           (''category'', JStr (category n)), (''gender'', JStr (gender n))]"

datatype content = Content string "string list"

record candidate =
  content :: "content option"

record response =
  candidates :: "candidate list option"
  parsed :: "AugmentedSastricName list option"

datatype contents = Prompt string | Chat "content option list"

datatype schema = ListOfAugmentedSastricName

record config =
  temperature :: rat
  response_mime_type :: string
  response_schema :: schema

record request =
  model :: string
  request_contents :: contents
  request_config :: config

text \<open>
  The service answers a request with a response or raises. The world is the files and
  the requests made so far, in order. An effectful function returns its result, or the
  exception it raised, together with the world it leaves: what was written before an
  exception stays written.
\<close>

type_synonym service = "request \<Rightarrow> exn + response"

record world =
  files :: files
  calls :: "request list"

definition generate_content :: "service \<Rightarrow> request \<Rightarrow> world \<Rightarrow> (exn + response) \<times> world" where
  "generate_content svc req w = (svc req, w\<lparr>calls := calls w @ [req]\<rparr>)"

section \<open>Chapter catalog and verse texts\<close>

text \<open>
  The database is read only. \<open>sb_chapters\<close> is the result of the catalog query of
  \<^verbatim>\<open>list_all_sb_chapters\<close>, in the order the query returns it: parent title, chapter
  title, record of the first text, next sibling's record. \<open>texts_table\<close> has the rows
  of table \<^verbatim>\<open>texts\<close> (recid, plain) in the order a query returns them.
\<close>

type_synonym chapter_set = "string \<times> string \<times> int \<times> int"

record database =
  sb_chapters :: "chapter_set list"
  texts_table :: "(int \<times> string) list"

definition chapter_json :: "chapter_set \<Rightarrow> json" where
  "chapter_json cs = (case cs of (parent, title, first_text, last_text) \<Rightarrow>
     JArr [JStr parent, JStr title, JInt first_text, JInt last_text])"

definition list_all_sb_chapters :: "database \<Rightarrow> world \<Rightarrow> chapter_set list \<times> world" where
  "list_all_sb_chapters db w =
     (let chapters = sb_chapters db
      in (chapters,
          w\<lparr>files := write_json (files w) ''sb_chapters.json'' (JArr (map chapter_json chapters))\<rparr>))"

text \<open>Lines 86 to 143: the texts of the span, cleaned, joined, split and filtered.\<close>

definition chapter_texts :: "database \<Rightarrow> int \<Rightarrow> int \<Rightarrow> string list" where
  "chapter_texts db first_text_record last_text_record =
     (let unformatted_texts =
            map snd (filter (\<lambda>row. fst row \<ge> first_text_record \<and> fst row \<le> last_text_record)
                            (texts_table db));
          formatted_texts = map re_sub_tags unformatted_texts;
          concatenated_text = join '' '' formatted_texts;
          split_texts = re_split concatenated_text
      in map strip (filter (\<lambda>piece. startswith (strip piece) [''TEXT '', ''TEXTS '']) split_texts))"

text \<open>The \<^verbatim>\<open>for chapter_set in chapters\<close> loop, which returns at the first match.\<close>

fun find_chapter :: "database \<Rightarrow> string \<Rightarrow> chapter_set list \<Rightarrow> exn + string list" where
  "find_chapter db canto_chapter [] = Inl (ValueError (canto_chapter @ '' not found in SB.''))"
| "find_chapter db canto_chapter (chapter_set # chapters) =
     (if contains (fst (snd chapter_set)) canto_chapter
      then Inr (chapter_texts db (fst (snd (snd chapter_set))) (snd (snd (snd chapter_set))))
      else find_chapter db canto_chapter chapters)"

text \<open>Line 74: \<^verbatim>\<open>f"SB {canto}.{chapter}:"\<close>\<close>

definition canto_chapter_of :: "int \<Rightarrow> int \<Rightarrow> string" where
  "canto_chapter_of canto chapter = ''SB '' @ str_int canto @ ''.'' @ str_int chapter @ '':''"

definition get_texts_from_chapter ::
  "database \<Rightarrow> int \<Rightarrow> int \<Rightarrow> world \<Rightarrow> (exn + string list) \<times> world" where
  "get_texts_from_chapter db canto chapter w =
     (let canto_chapter = canto_chapter_of canto chapter;
          (chapters, w') = list_all_sb_chapters db w
      in (find_chapter db canto_chapter chapters, w'))"

section \<open>Dedup store: reading the names\<close>

text \<open>
  \<^verbatim>\<open>[item['name'] for item in data]\<close> on a value read from JSON. Iterating a list
  gives its elements, a dict its keys, a string its characters; anything else is not
  iterable. Only a dict can be indexed by \<^verbatim>\<open>'name'\<close>. The comprehension stops at the
  first item that raises.
\<close>

fun iterate :: "json \<Rightarrow> exn + json list" where
  "iterate (JArr xs) = Inr xs"
| "iterate (JObj kvs) = Inr (map (\<lambda>kv. JStr (fst kv)) kvs)"
| "iterate (JStr s) = Inr (map (\<lambda>c. JStr [c]) s)"
| "iterate v = Inl TypeError"

fun item_name :: "json \<Rightarrow> exn + json" where
  "item_name (JObj kvs) = (case map_of kvs ''name'' of None \<Rightarrow> Inl KeyError | Some v \<Rightarrow> Inr v)"
| "item_name v = Inl TypeError"

fun item_names :: "json list \<Rightarrow> exn + json list" where
  "item_names [] = Inr []"
| "item_names (item # items) =
     (case item_name item of
        Inl e \<Rightarrow> Inl e
      | Inr n \<Rightarrow> (case item_names items of Inl e \<Rightarrow> Inl e | Inr ns \<Rightarrow> Inr (n # ns)))"

text \<open>The body of the \<^verbatim>\<open>try\<close> of \<^verbatim>\<open>load_existing_names\<close>, then its two handlers.\<close>

definition load_existing_names_try :: "files \<Rightarrow> string \<Rightarrow> exn + json list" where
  "load_existing_names_try fs json_file_path =
     (case read_json fs json_file_path of
        Inl e \<Rightarrow> Inl e
      | Inr data \<Rightarrow> (case iterate data of Inl e \<Rightarrow> Inl e | Inr items \<Rightarrow> item_names items))"

definition load_existing_names :: "files \<Rightarrow> string \<Rightarrow> exn + json list" where
  "load_existing_names fs json_file_path =
     (case load_existing_names_try fs json_file_path of
        Inr existing_names \<Rightarrow> Inr existing_names
      | Inl e \<Rightarrow>
          if e = FileNotFoundError then Inr []
          else if is_Exception e then Inr []
          else Inl e)"

section \<open>Batch extraction\<close>

text \<open>
  The fixed wording of the prompts, line by line. The sample entry of the criteria has
  six words with letters beyond code point 255; they are written here without their
  diacritics.
\<close>

definition command_opening :: string where
  \<open>command_opening = join [CHR 0x0A]
     ['''',
      '''',
      ''    You are a Sanskrit expert interested in identifying beautiful names that are '',
      ''    in Sanskrit. The above input comes from the following reference: '']\<close>

definition command_task :: string where
  \<open>command_task = join [CHR 0x0A]
     ['','',
      ''    with all the Sanskrit verses transliterated, word-to-word Sanskrit-to-English '',
      ''    translations, verse translations, and purports. Your task is to find all relevant '',
      ''    Sanskrit names from the above text. These names will be used by someone who gives '',
      ''    new names to people of all ages looking to be initiated into the disciplic '',
      ''    succession of ISKCON, so feel free to include names of any and all lengths. '',
      ''    HOWEVER, you MUST make sure to follow the given criteria for names.'',
      '''',
      ''    '']\<close>

definition command_criteria :: string where
  \<open>command_criteria = join [CHR 0x0A]
     ['''',
      '''',
      ''    The following is the criteria for the names:'',
      '''',
      ''    Names of Krishna'',
      ''    Names of Krishna's incarnations (ex. names of Caitanya, Balaram, Rama, etc.)'',
      ''    Names of Krishna's male devotees (ex. acaryas, etc.)'',
      ''    Names of Krishna's female devotees (ex. gopis, radha, etc.)'',
      ''    Names of Krishna's animals and pets (ex. hamsi, etc.)'',
      ''    Qualities of Krishna (ex. face, feet, kindness, mercy, etc.)'',
      ''    Qualities of Krishna's devotees (ex. desire-fulfilling trees, etc.)'',
      ''    Qualities of bhakti and devotional practice (ex. prema, etc.)'',
      ''    Names of books (ex. gopala-campu)'',
      ''    Names of holy places (ex. vrindavan, etc.)'',
      '''',
      ''    Your output must include the name, definition, context around the name, '',
      ''    the verse number as reference, the criteria category, AND the gender '',
      ''    (male/female/neutral). Format your output EXACTLY as follows:'',
      '''',
      ''    "Vasudeva'',
      ''    Definition: Son of Vasudeva; the divine son of Vasudeva and Devaki'',
      ''    Context: This is the primary name invoked in the opening verse of '',
      ''    Srimad-Bhagavatam. The name indicates both Krishna's earthly parentage and '',
      ''    His divine nature. It's used in the invocation "om namo bhagavate vasudevaya" '',
      ''    (I offer my obeisances unto the Personality of Godhead, Vasudeva).'',
      ''    Reference: SB 1.1.1, 1.1.12 Purport, 1.1.19'',
      ''    Category: Names of Krishna'',
      ''    Gender: Male"'',
      '''',
      ''    Note how the name is first, and the definition, context, references, and so '',
      ''    on and so forth are all thoroughly provided below. Make sure to be especially '',
      ''    comprehensive in any context that you find for the name. Also, make sure to '',
      ''    extract ALL names, and DO NOT SKIP ANY, since you are very, very interested in '',
      ''    learning all of the names according to the criteria. Lastly, make sure to '',
      ''    present the name as the name itself in the correct Sanskrit declension, the '',
      ''    nominative case.'']\<close>

definition exclusion_opening :: string where
  \<open>exclusion_opening = join [CHR 0x0A]
     [''IMPORTANT: DO NOT include any of the following names that have already been found:'',
      ''        '',
      ''        '']\<close>

definition exclusion_closing :: string where
  \<open>exclusion_closing = join [CHR 0x0A]
     ['''',
      ''        '',
      ''        Please find ONLY NEW names that are not in the above list.'']\<close>

definition second_prompt_opening :: string where
  \<open>second_prompt_opening = join [CHR 0x0A]
     ['''',
      ''    The above is the first response. Now, please continue to find more names'',
      ''    from the same source text, '']\<close>

definition second_prompt_closing :: string where
  \<open>second_prompt_closing = join [CHR 0x0A]
     ['', that you have not already found.'',
      ''    Make sure to follow the same criteria as before, and DO NOT repeat any names'',
      ''    that you have already found in the first response. Format your output exactly'',
      ''    as before, with the name first, followed by the definition, context, references,'',
      ''    category. Then, add these to the previous response, so that you have a'',
      ''    comprehensive list of all the names you have found so far.'']\<close>

definition command :: "string \<Rightarrow> string \<Rightarrow> string" where
  "command source_ref exclusion_text =
     command_opening @ source_ref @ command_task @ exclusion_text @ command_criteria"

definition second_prompt :: "string \<Rightarrow> string" where
  "second_prompt source_ref = second_prompt_opening @ source_ref @ second_prompt_closing"

text \<open>\<^verbatim>\<open>', '.join(existing_names)\<close> raises on an element that is not a string.\<close>

fun str_items :: "json list \<Rightarrow> exn + string list" where
  "str_items [] = Inr []"
| "str_items (JStr s # vs) = (case str_items vs of Inl e \<Rightarrow> Inl e | Inr ss \<Rightarrow> Inr (s # ss))"
| "str_items (v # vs) = Inl TypeError"

definition make_exclusion_text :: "json list \<Rightarrow> exn + string" where
  "make_exclusion_text existing_names =
     (if existing_names \<noteq> [] then
        (case str_items existing_names of
           Inl e \<Rightarrow> Inl e
         | Inr ss \<Rightarrow> Inr (exclusion_opening @ join '', '' ss @ exclusion_closing))
      else Inr [])"

definition make_first_prompt :: "string \<Rightarrow> string \<Rightarrow> string \<Rightarrow> string" where
  "make_first_prompt source_str source_ref exclusion_text =
     source_str @ [CHR '' '', CHR 0x0A, CHR 0x0A, CHR '' ''] @ command source_ref exclusion_text"

definition json_config :: config where
  "json_config = \<lparr>temperature = 0, response_mime_type = ''application/json'',
                  response_schema = ListOfAugmentedSastricName\<rparr>"

definition generate_request :: "contents \<Rightarrow> request" where
  "generate_request c =
     \<lparr>model = ''gemini-2.5-pro'', request_contents = c, request_config = json_config\<rparr>"

text \<open>\<^verbatim>\<open>first_response.candidates[0].content\<close>\<close>

definition first_candidate_content :: "response \<Rightarrow> exn + content option" where
  "first_candidate_content r =
     (case candidates r of
        None \<Rightarrow> Inl TypeError
      | Some [] \<Rightarrow> Inl IndexError
      | Some (c # cs) \<Rightarrow> Inr (content c))"

text \<open>Lines 88 to 90: an absent or empty file name loads nothing.\<close>

definition existing_names_of :: "string option \<Rightarrow> files \<Rightarrow> exn + json list" where
  "existing_names_of exclude_names_file fs =
     (case exclude_names_file of
        None \<Rightarrow> Inr []
      | Some path \<Rightarrow> if path \<noteq> [] then load_existing_names fs path else Inr [])"

definition extract_names ::
  "service \<Rightarrow> string \<Rightarrow> string \<Rightarrow> string option \<Rightarrow> world \<Rightarrow>
     (exn + AugmentedSastricName list option) \<times> world" where
  "extract_names svc source_str source_ref exclude_names_file w =
     (case existing_names_of exclude_names_file (files w) of
        Inl e \<Rightarrow> (Inl e, w)
      | Inr existing_names \<Rightarrow>
     (case make_exclusion_text existing_names of
        Inl e \<Rightarrow> (Inl e, w)
      | Inr exclusion_text \<Rightarrow>
     (let first_prompt = make_first_prompt source_str source_ref exclusion_text
      in case generate_content svc (generate_request (Prompt first_prompt)) w of
        (Inl e, w1) \<Rightarrow> (Inl e, w1)
      | (Inr first_response, w1) \<Rightarrow>
     (case first_candidate_content first_response of
        Inl e \<Rightarrow> (Inl e, w1)
      | Inr model_content_for_history \<Rightarrow>
     (let chat_contents =
            [Some (Content ''user'' [first_prompt]),
             model_content_for_history,
             Some (Content ''user'' [second_prompt source_ref])]
      in case generate_content svc (generate_request (Chat chat_contents)) w1 of
        (Inl e, w2) \<Rightarrow> (Inl e, w2)
      | (Inr second_response, w2) \<Rightarrow> (Inr (parsed second_response), w2))))))"

section \<open>Dedup store: appending\<close>

definition names_file :: "int \<Rightarrow> int \<Rightarrow> string" where
  "names_file canto chapter =
     ''sb_canto'' @ str_int canto @ ''_chapter'' @ str_int chapter @ ''_names.json''"

text \<open>The \<^verbatim>\<open>try\<close> of \<^verbatim>\<open>extract_names_to_json\<close> with its two handlers.\<close>

definition read_existing_data :: "files \<Rightarrow> string \<Rightarrow> exn + json" where
  "read_existing_data fs path =
     (case read_json fs path of
        Inr existing_data \<Rightarrow> Inr existing_data
      | Inl e \<Rightarrow>
          if e = FileNotFoundError then Inr (JArr [])
          else if e = JSONDecodeError then Inr (JArr [])
          else Inl e)"

text \<open>\<^verbatim>\<open>existing_data.extend(names_data)\<close>: only a list has the method.\<close>

fun extend :: "json \<Rightarrow> json list \<Rightarrow> exn + json" where
  "extend (JArr xs) ys = Inr (JArr (xs @ ys))"
| "extend v ys = Inl AttributeError"

definition extract_names_to_json ::
  "int \<Rightarrow> int \<Rightarrow> AugmentedSastricName list option \<Rightarrow> world \<Rightarrow> (exn + unit) \<times> world" where
  "extract_names_to_json canto chapter found_names w =
     (case found_names of
        None \<Rightarrow> (Inl TypeError, w)
      | Some names \<Rightarrow>
     (let names_data = map model_dump names
      in case read_existing_data (files w) (names_file canto chapter) of
        Inl e \<Rightarrow> (Inl e, w)
      | Inr existing_data \<Rightarrow>
     (case extend existing_data names_data of
        Inl e \<Rightarrow> (Inl e, w)
      | Inr updated \<Rightarrow>
          (Inr (), w\<lparr>files := write_json (files w) (names_file canto chapter) updated\<rparr>))))"

section \<open>Pagination pipeline\<close>

text \<open>\<^verbatim>\<open>xs[start:stop]\<close> with Python's clamping of the two bounds.\<close>

definition slice_bound :: "nat \<Rightarrow> int \<Rightarrow> int" where
  "slice_bound n i = (if i < 0 then max 0 (i + int n) else min i (int n))"

definition py_slice :: "'a list \<Rightarrow> int \<Rightarrow> int \<Rightarrow> 'a list" where
  "py_slice xs start stop =
     (let a = slice_bound (length xs) start; b = slice_bound (length xs) stop
      in take (nat (b - a)) (drop (nat a) xs))"

text \<open>
  \<^verbatim>\<open>m.ceil(len(texts) / 20)\<close>. Python divides in double precision; the quotient's
  ceiling is the exact one for every length below \<open>2 ^ 53\<close>, and the model takes the
  exact ceiling.
\<close>

definition max_iter_of :: "string list \<Rightarrow> int" where
  "max_iter_of texts = \<lceil>(of_nat (length texts) :: rat) / 20\<rceil>"

text \<open>Lines 16 to 21: the slice of one iteration.\<close>

definition batch_slice :: "string list \<Rightarrow> int \<Rightarrow> string list" where
  "batch_slice texts curr_iter =
     (let start_index = 20 * curr_iter;
          step = min 20 (int (length texts) - start_index)
      in py_slice texts start_index (start_index + step))"

text \<open>Lines 21 to 26: what one iteration does with its slice.\<close>

definition process_batch ::
  "service \<Rightarrow> int \<Rightarrow> int \<Rightarrow> string \<Rightarrow> string \<Rightarrow> string list \<Rightarrow> world \<Rightarrow> (exn + unit) \<times> world" where
  "process_batch svc canto chapter source_ref exclude_names_file batch w =
     (let source_str = join '' '' batch
      in case extract_names svc source_str source_ref (Some exclude_names_file) w of
        (Inl e, w1) \<Rightarrow> (Inl e, w1)
      | (Inr found_names, w1) \<Rightarrow> extract_names_to_json canto chapter found_names w1)"

function chapter_loop ::
  "service \<Rightarrow> int \<Rightarrow> int \<Rightarrow> string \<Rightarrow> string \<Rightarrow> string list \<Rightarrow> int \<Rightarrow> int \<Rightarrow> world \<Rightarrow>
     (exn + unit) \<times> world" where
  "chapter_loop svc canto chapter source_ref exclude_names_file texts curr_iter max_iter w =
     (if curr_iter < max_iter then
        (case process_batch svc canto chapter source_ref exclude_names_file
                (batch_slice texts curr_iter) w of
           (Inl e, w') \<Rightarrow> (Inl e, w')
         | (Inr u, w') \<Rightarrow>
             chapter_loop svc canto chapter source_ref exclude_names_file texts
               (curr_iter + 1) max_iter w')
      else (Inr (), w))"
  by pat_completeness auto
termination
  by (relation "measure (\<lambda>(svc, canto, chapter, source_ref, exclude_names_file, texts,
                            curr_iter, max_iter, w). nat (max_iter - curr_iter))") auto

declare chapter_loop.simps [simp del]

definition source_ref_of :: "int \<Rightarrow> int \<Rightarrow> string" where
  "source_ref_of canto chapter =
     ''Srimad Bhagavatam, Canto '' @ str_int canto @ '', Chapter '' @ str_int chapter"

definition get_names_from_chapter ::
  "service \<Rightarrow> database \<Rightarrow> int \<Rightarrow> int \<Rightarrow> world \<Rightarrow> (exn + unit) \<times> world" where
  "get_names_from_chapter svc db canto chapter w =
     (let source_ref = source_ref_of canto chapter;
          exclude_names_file = names_file canto chapter
      in case get_texts_from_chapter db canto chapter w of
        (Inl e, w1) \<Rightarrow> (Inl e, w1)
      | (Inr texts, w1) \<Rightarrow>
          chapter_loop svc canto chapter source_ref exclude_names_file texts
            0 (max_iter_of texts) w1)"

section \<open>Chapter and canto driver\<close>




section \<open>Notions of the specification and sample inputs\<close>

text \<open>
  The sequence a store file stands for, in the specification's words: the stored
  sequence, or the empty one when the file is missing or is not JSON; \<open>None\<close> for
  every other state of the file.
\<close>

definition stored_sequence :: "file_content option \<Rightarrow> json list option" where
  "stored_sequence f =
     (case f of
        None \<Rightarrow> Some []
      | Some NotJson \<Rightarrow> Some []
      | Some (Json (JArr xs)) \<Rightarrow> Some xs
      | _ \<Rightarrow> None)"

text \<open>
  A verse marker, in the specification's words: \<^verbatim>\<open>TEXT\<close>, a space and an integer,
  or \<^verbatim>\<open>TEXTS\<close>, a space and two integers joined by a dash. It stands as a whole word
  between \<open>pre\<close> and \<open>post\<close> when \<open>pre\<close> does not end with a word character and
  \<open>post\<close> does not start with one.
\<close>

definition word_at_start :: "string \<Rightarrow> bool" where
  "word_at_start s = (case s of [] \<Rightarrow> False | c # _ \<Rightarrow> is_word c)"

definition word_at_end :: "string \<Rightarrow> bool" where
  "word_at_end s = word_at_start (rev s)"

definition is_marker :: "string \<Rightarrow> bool" where
  "is_marker m =
     ((\<exists>ds. ds \<noteq> [] \<and> list_all is_decimal ds \<and> m = ''TEXT '' @ ds) \<or>
      (\<exists>ds es. ds \<noteq> [] \<and> list_all is_decimal ds \<and> es \<noteq> [] \<and> list_all is_decimal es \<and>
               m = ''TEXTS '' @ ds @ ''-'' @ es))"

definition word_opt :: "char option \<Rightarrow> bool" where
  "word_opt p = (case p of None \<Rightarrow> False | Some c \<Rightarrow> is_word c)"


text \<open>
  The batches of a chapter: the slices of iterations \<open>0\<close> to \<open>max_iter - 1\<close>.
  \<open>run_batches\<close> handles a list of batches one after the other and stops at the first
  exception.
\<close>

definition batches :: "string list \<Rightarrow> string list list" where
  "batches texts = map (\<lambda>i. batch_slice texts (int i)) [0..<nat (max_iter_of texts)]"

fun run_batches ::
  "(string list \<Rightarrow> world \<Rightarrow> (exn + unit) \<times> world) \<Rightarrow> string list list \<Rightarrow> world \<Rightarrow>
     (exn + unit) \<times> world" where
  "run_batches f [] w = (Inr (), w)"
| "run_batches f (b # bs) w =
     (case f b w of (Inl e, w') \<Rightarrow> (Inl e, w') | (Inr u, w') \<Rightarrow> run_batches f bs w')"

text \<open>Sample inputs: two records, a stub service with fixed answers, a small database.\<close>

definition sample_A :: AugmentedSastricName where
  "sample_A = \<lparr>name = ''A'', definition' = ''d'', context' = ''c'', references = [''r''],
                category = ''k'', gender = ''Male''\<rparr>"

definition sample_B :: AugmentedSastricName where
  "sample_B = \<lparr>name = ''B'', definition' = ''d'', context' = ''c'', references = [''r''],
                category = ''k'', gender = ''Female''\<rparr>"

definition response_of :: "AugmentedSastricName list \<Rightarrow> response" where
  "response_of ns =
     \<lparr>candidates = Some [\<lparr>content = Some (Content ''model'' [''json''])\<rparr>], parsed = Some ns\<rparr>"

definition stub_service :: "response \<Rightarrow> response \<Rightarrow> service" where
  "stub_service r1 r2 req =
     (case request_contents req of Prompt p \<Rightarrow> Inr r1 | Chat cs \<Rightarrow> Inr r2)"

definition sample_db :: database where
  "sample_db =
     \<lparr>sb_chapters =
        [(''Canto 1'', ''SB 1.1: Questions by the Sages'', 10, 12),
         (''Canto 1'', ''SB 1.2: Divinity and Divine Service'', 12, 20),
         (''Canto 1'', ''SB 1.1: Questions by the Sages (copy)'', 13, 13)],
      texts_table =
        [(9, ''zero''), (10, ''<p>Chapter One</p>''), (11, ''TEXT 1<br>om namo''),
         (12, '' bhagavate TEXTS 2-3 <i>janmady</i> asya''), (13, ''TEXT 4 x'')]\<rparr>"

definition empty_world :: world where
  "empty_world = \<lparr>files = Map.empty, calls = []\<rparr>"


definition two_round_stub :: service where
  "two_round_stub = stub_service (response_of [sample_A]) (response_of [sample_B])"


definition long_db :: database where
  "long_db =
     \<lparr>sb_chapters = [(''Canto 1'', ''SB 1.1: Questions by the Sages'', 1, 1)],
      texts_table =
        [(1, ''TEXT 1 TEXT 2 TEXT 3 TEXT 4 TEXT 5 TEXT 6 TEXT 7 TEXT 8 TEXT 9 TEXT 10 TEXT 11 TEXT 12 TEXT 13 TEXT 14 TEXT 15 TEXT 16 TEXT 17 TEXT 18 TEXT 19 TEXT 20 TEXT 21'')]\<rparr>"

definition long_texts :: "string list" where
  "long_texts =
     [''TEXT 1'', ''TEXT 2'', ''TEXT 3'', ''TEXT 4'', ''TEXT 5'', ''TEXT 6'', ''TEXT 7'',
     ''TEXT 8'', ''TEXT 9'', ''TEXT 10'', ''TEXT 11'', ''TEXT 12'', ''TEXT 13'', ''TEXT 14'',
     ''TEXT 15'', ''TEXT 16'', ''TEXT 17'', ''TEXT 18'', ''TEXT 19'', ''TEXT 20'', ''TEXT 21'']"

section \<open>The exclusion store never fails its caller\<close>

lemma load_existing_names_try_Exception:
  "load_existing_names_try fs path = Inl e \<Longrightarrow> is_Exception e"
proof -
  have a: "iterate v = Inl e \<Longrightarrow> is_Exception e" for v
    by (cases v) auto
  have b: "item_name v = Inl e \<Longrightarrow> is_Exception e" for v
    by (cases v) (auto split: option.splits)
  have c: "item_names vs = Inl e \<Longrightarrow> is_Exception e" for vs
    by (induction vs) (auto split: sum.splits dest: b)
  assume "load_existing_names_try fs path = Inl e"
  then show ?thesis
    by (auto simp: load_existing_names_try_def read_json_def
             split: sum.splits option.splits file_content.splits dest: a c)
qed

lemma load_existing_names_total:
  "load_existing_names fs path =
     Inr (case load_existing_names_try fs path of Inl e \<Rightarrow> [] | Inr ns \<Rightarrow> ns)"
  by (auto simp: load_existing_names_def split: sum.splits dest: load_existing_names_try_Exception)

text \<open>
  Claim C8. \<open>load_existing_names\<close> on a missing store file returns the empty list; on a
  file that cannot be opened, is not UTF-8, is not JSON, or holds JSON of the wrong shape
  (whatever makes the comprehension raise) it returns the empty list as well; and for
  every state of the files it returns a list, never an exception.
\<close>

theorem load_existing_names_never_raises:
  "load_existing_names (fs(path := None)) path = Inr [] \<and>
   load_existing_names (fs(path \<mapsto> NoPermission)) path = Inr [] \<and>
   load_existing_names (fs(path \<mapsto> NotUtf8)) path = Inr [] \<and>
   load_existing_names (fs(path \<mapsto> NotJson)) path = Inr [] \<and>
   load_existing_names (fs(path \<mapsto> Json v)) path =
     Inr (case iterate v of
            Inl e \<Rightarrow> []
          | Inr items \<Rightarrow> (case item_names items of Inl e \<Rightarrow> [] | Inr ns \<Rightarrow> ns)) \<and>
   (\<exists>existing_names. load_existing_names fs path = Inr existing_names) \<and>
   load_existing_names fs path \<noteq> Inl e"
  by (simp add: load_existing_names_total)
     (simp add: load_existing_names_try_def read_json_def split: sum.splits)

theorem load_existing_names_never_raises_witness:
  "load_existing_names (Map.empty(''sb_canto1_chapter1_names.json'' \<mapsto> NotJson))
     ''sb_canto1_chapter1_names.json'' = Inr [] \<and>
   load_existing_names (Map.empty(''sb_canto1_chapter1_names.json'' \<mapsto> Json (JObj [(''a'', JInt 1)])))
     ''sb_canto1_chapter1_names.json'' = Inr []"
  using load_existing_names_never_raises
          [of Map.empty "''sb_canto1_chapter1_names.json''" "JObj [(''a'', JInt 1)]"]
  by simp

section \<open>Appending to the store\<close>

lemma extend_Inr: "extend v ys = Inr u \<Longrightarrow> \<exists>xs. v = JArr xs \<and> u = JArr (xs @ ys)"
  by (cases v) auto

lemma read_existing_data_stored:
  "read_existing_data fs path = Inr (JArr xs) \<longleftrightarrow> stored_sequence (fs path) = Some xs"
  by (auto simp: read_existing_data_def read_json_def stored_sequence_def
           split: option.splits file_content.splits json.splits if_splits)

text \<open>
  On a store file that holds a JSON array, is missing, or is not JSON, the call persists
  the stored sequence (empty in the last two cases) followed by the new records in their
  order. In every other state of the file it raises and the world is unchanged.
\<close>

lemma extract_names_to_json_appends:
  "(stored_sequence (files w (names_file canto chapter)) = Some xs \<longrightarrow>
      extract_names_to_json canto chapter (Some names) w =
        (Inr (), w\<lparr>files := (files w)(names_file canto chapter \<mapsto>
                          Json (JArr (xs @ map model_dump names)))\<rparr>)) \<and>
   (stored_sequence (files w (names_file canto chapter)) = None \<longrightarrow>
      (\<exists>e. extract_names_to_json canto chapter (Some names) w = (Inl e, w)))"
proof (intro conjI impI)
  assume "stored_sequence (files w (names_file canto chapter)) = Some xs"
  then have "read_existing_data (files w) (names_file canto chapter) = Inr (JArr xs)"
    by (simp add: read_existing_data_stored)
  then show "extract_names_to_json canto chapter (Some names) w =
        (Inr (), w\<lparr>files := (files w)(names_file canto chapter \<mapsto>
                          Json (JArr (xs @ map model_dump names)))\<rparr>)"
    by (simp add: extract_names_to_json_def write_json_def)
next
  assume n: "stored_sequence (files w (names_file canto chapter)) = None"
  show "\<exists>e. extract_names_to_json canto chapter (Some names) w = (Inl e, w)"
  proof (cases "read_existing_data (files w) (names_file canto chapter)")
    case (Inl e)
    then show ?thesis by (simp add: extract_names_to_json_def)
  next
    case (Inr v)
    have "\<exists>e. extend v (map model_dump names) = Inl e"
    proof (cases "extend v (map model_dump names)")
      case (Inl e)
      then show ?thesis by simp
    next
      case (Inr u)
      then obtain ys where "v = JArr ys" by (auto dest: extend_Inr)
      with \<open>read_existing_data _ _ = Inr v\<close> n show ?thesis
        by (simp add: read_existing_data_stored)
    qed
    with Inr show ?thesis by (auto simp: extract_names_to_json_def)
  qed
qed

text \<open>
  Claim C9. The call does not start from the empty sequence on every corrupt store
  file. On a store file whose bytes are not UTF-8
  (a stored array cut in the middle of a character, say) \<^verbatim>\<open>json.load\<close> raises
  \<^verbatim>\<open>UnicodeDecodeError\<close>, which neither handler of \<open>extract_names_to_json\<close> names.
  The call raises and the new records are not persisted, where the claim and the comment
  of line 238 start from the empty sequence, as \<open>load_existing_names\<close> does on the
  same file and as this function does on a file that is not JSON.
\<close>

theorem extract_names_to_json_not_utf8_store:
  "extract_names_to_json 1 1 (Some [sample_A])
     \<lparr>files = [names_file 1 1 \<mapsto> NotUtf8], calls = []\<rparr> =
     (Inl UnicodeDecodeError, \<lparr>files = [names_file 1 1 \<mapsto> NotUtf8], calls = []\<rparr>) \<and>
   load_existing_names [names_file 1 1 \<mapsto> NotUtf8] (names_file 1 1) = Inr [] \<and>
   extract_names_to_json 1 1 (Some [sample_A])
     \<lparr>files = [names_file 1 1 \<mapsto> NotJson], calls = []\<rparr> =
     (Inr (), \<lparr>files = [names_file 1 1 \<mapsto> Json (JArr [model_dump sample_A])], calls = []\<rparr>)"
  by (simp add: extract_names_to_json_def read_existing_data_def read_json_def write_json_def
        load_existing_names_total load_existing_names_try_def)

section \<open>The batch protocol returns round two\<close>

text \<open>
  Claim C4. Whatever the batch and whatever the two responses: when the service answers
  the first request with \<open>first_response\<close> (which has a candidate) and the second
  request, which replays the first prompt and the first response's content, with
  \<open>second_response\<close>, \<open>extract_names\<close> returns exactly the parsed records of
  \<open>second_response\<close>. The parsed records of \<open>first_response\<close> occur nowhere in
  the result; the files are unchanged and the two requests are the only calls.
\<close>

theorem extract_names_returns_round_two:
  assumes "existing_names_of exclude_names_file (files w) = Inr existing_names"
    and "make_exclusion_text existing_names = Inr exclusion_text"
    and "first_prompt = make_first_prompt source_str source_ref exclusion_text"
    and "svc (generate_request (Prompt first_prompt)) = Inr first_response"
    and "first_candidate_content first_response = Inr model_content_for_history"
    and "svc (generate_request (Chat [Some (Content ''user'' [first_prompt]),
                                      model_content_for_history,
                                      Some (Content ''user'' [second_prompt source_ref])]))
           = Inr second_response"
  shows "extract_names svc source_str source_ref exclude_names_file w =
           (Inr (parsed second_response),
            w\<lparr>calls := calls w @
               [generate_request (Prompt first_prompt),
                generate_request (Chat [Some (Content ''user'' [first_prompt]),
                                        model_content_for_history,
                                        Some (Content ''user'' [second_prompt source_ref])])]\<rparr>)"
  using assms by (simp add: extract_names_def generate_content_def Let_def)


theorem extract_names_returns_round_two_witness:
  "fst (extract_names (stub_service (response_of [sample_A]) (response_of [sample_B]))
         ''TEXT 1'' (source_ref_of 1 1) None empty_world)
     = Inr (Some [sample_B])"
  using extract_names_returns_round_two
    [of None empty_world "[]" "[]"
        "make_first_prompt ''TEXT 1'' (source_ref_of 1 1) []"
        "''TEXT 1''" "source_ref_of 1 1"
        "stub_service (response_of [sample_A]) (response_of [sample_B])"
        "response_of [sample_A]" "Some (Content ''model'' [''json''])" "response_of [sample_B]"]
  by (simp add: existing_names_of_def make_exclusion_text_def stub_service_def generate_request_def
        first_candidate_content_def response_of_def)

section \<open>Locating a chapter\<close>

lemma contains_iff: "contains s x \<longleftrightarrow> (\<exists>pre suf. s = pre @ x @ suf)"
proof (induction s)
  case Nil
  then show ?case by auto
next
  case (Cons c cs)
  show ?case
  proof
    assume "contains (c # cs) x"
    then consider "prefix x (c # cs)" | "contains cs x" by auto
    then show "\<exists>pre suf. c # cs = pre @ x @ suf"
    proof cases
      case 1
      then obtain suf where "c # cs = x @ suf" by (auto simp: prefix_def)
      then have "c # cs = [] @ x @ suf" by simp
      then show ?thesis by blast
    next
      case 2
      with Cons obtain pre suf where "cs = pre @ x @ suf" by auto
      then have "c # cs = (c # pre) @ x @ suf" by simp
      then show ?thesis by blast
    qed
  next
    assume "\<exists>pre suf. c # cs = pre @ x @ suf"
    then obtain pre suf where e: "c # cs = pre @ x @ suf" by auto
    show "contains (c # cs) x"
    proof (cases pre)
      case Nil
      with e have "prefix x (c # cs)" by (simp add: prefix_def)
      then show ?thesis by simp
    next
      case (Cons p ps)
      with e have "cs = ps @ x @ suf" by simp
      with Cons.IH show ?thesis by auto
    qed
  qed
qed

lemma find_chapter_Inl:
  "find_chapter db key chapters = Inl e \<longleftrightarrow>
     (\<forall>cs \<in> set chapters. \<not> contains (fst (snd cs)) key) \<and> e = ValueError (key @ '' not found in SB.'')"
  by (induction chapters) auto

lemma find_chapter_first:
  "\<forall>cs \<in> set pre. \<not> contains (fst (snd cs)) key \<Longrightarrow> contains (fst (snd chapter_set)) key \<Longrightarrow>
   find_chapter db key (pre @ chapter_set # post) =
     Inr (chapter_texts db (fst (snd (snd chapter_set))) (snd (snd (snd chapter_set))))"
  by (induction pre) auto

lemma fst_get_texts_from_chapter:
  "fst (get_texts_from_chapter db canto chapter w) =
     find_chapter db (canto_chapter_of canto chapter) (sb_chapters db)"
  by (simp add: get_texts_from_chapter_def list_all_sb_chapters_def Let_def)

text \<open>
  Claim C7. \<open>get_texts_from_chapter\<close> fails exactly when no title of the chapter
  catalog contains \<^verbatim>\<open>SB <canto>.<chapter>:\<close>, and then with the \<open>ValueError\<close> of line
  147; when some title contains it, the call returns texts; and with no title containing
  \<^verbatim>\<open>SB 13.\<close> the call fails for canto 13 and every chapter.
\<close>

theorem get_texts_from_chapter_fails_iff_no_title:
  "(fst (get_texts_from_chapter db canto chapter w) = Inl e \<longleftrightarrow>
      (\<forall>cs \<in> set (sb_chapters db).
         \<not> (\<exists>pre suf. fst (snd cs) = pre @ canto_chapter_of canto chapter @ suf)) \<and>
      e = ValueError (canto_chapter_of canto chapter @ '' not found in SB.'')) \<and>
   ((\<exists>cs \<in> set (sb_chapters db). \<exists>pre suf. fst (snd cs) = pre @ canto_chapter_of canto chapter @ suf)
      \<longrightarrow> (\<exists>texts. fst (get_texts_from_chapter db canto chapter w) = Inr texts)) \<and>
   ((\<forall>cs \<in> set (sb_chapters db). \<not> (\<exists>pre suf. fst (snd cs) = pre @ ''SB 13.'' @ suf))
      \<longrightarrow> fst (get_texts_from_chapter db 13 chapter w) =
            Inl (ValueError (canto_chapter_of 13 chapter @ '' not found in SB.'')))"
proof (intro conjI impI)
  show a: "fst (get_texts_from_chapter db canto chapter w) = Inl e \<longleftrightarrow>
      (\<forall>cs \<in> set (sb_chapters db).
         \<not> (\<exists>pre suf. fst (snd cs) = pre @ canto_chapter_of canto chapter @ suf)) \<and>
      e = ValueError (canto_chapter_of canto chapter @ '' not found in SB.'')" for canto e
    by (simp add: fst_get_texts_from_chapter find_chapter_Inl contains_iff)
  {
    assume "\<exists>cs \<in> set (sb_chapters db). \<exists>pre suf. fst (snd cs) = pre @ canto_chapter_of canto chapter @ suf"
    then have "\<And>e. fst (get_texts_from_chapter db canto chapter w) \<noteq> Inl e"
      unfolding a by blast
    then show "\<exists>texts. fst (get_texts_from_chapter db canto chapter w) = Inr texts"
      by (cases "fst (get_texts_from_chapter db canto chapter w)") auto
  }
  {
    assume n: "\<forall>cs \<in> set (sb_chapters db). \<not> (\<exists>pre suf. fst (snd cs) = pre @ ''SB 13.'' @ suf)"
    have k: "canto_chapter_of 13 chapter = ''SB 13.'' @ str_int chapter @ '':''"
      by (simp add: canto_chapter_of_def str_int_def str_nat.simps digit_char_def)
    have "\<forall>cs \<in> set (sb_chapters db).
         \<not> (\<exists>pre suf. fst (snd cs) = pre @ canto_chapter_of 13 chapter @ suf)"
    proof (intro ballI notI)
      fix cs assume "cs \<in> set (sb_chapters db)"
        and "\<exists>pre suf. fst (snd cs) = pre @ canto_chapter_of 13 chapter @ suf"
      then obtain pre suf where "fst (snd cs) = pre @ ''SB 13.'' @ (str_int chapter @ '':'' @ suf)"
        unfolding k by auto
      with n \<open>cs \<in> set (sb_chapters db)\<close> show False by blast
    qed
    then show "fst (get_texts_from_chapter db 13 chapter w) =
            Inl (ValueError (canto_chapter_of 13 chapter @ '' not found in SB.''))"
      unfolding a by simp
  }
qed


theorem get_texts_from_chapter_fails_iff_no_title_witness:
  "fst (get_texts_from_chapter sample_db 13 2 empty_world) =
     Inl (ValueError ''SB 13.2: not found in SB.'') \<and>
   (\<exists>texts. fst (get_texts_from_chapter sample_db 1 2 empty_world) = Inr texts)"
proof -
  have k: "canto_chapter_of 1 2 = ''SB 1.2:''" "canto_chapter_of 13 2 = ''SB 13.2:''"
    by (simp_all add: canto_chapter_of_def str_int_def str_nat.simps digit_char_def)
  have "\<forall>cs \<in> set (sb_chapters sample_db). \<not> contains (fst (snd cs)) ''SB 13.''"
    by (simp add: sample_db_def)
  then have a: "\<forall>cs \<in> set (sb_chapters sample_db).
                  \<not> (\<exists>pre suf. fst (snd cs) = pre @ ''SB 13.'' @ suf)"
    unfolding contains_iff .
  have "\<exists>cs \<in> set (sb_chapters sample_db). contains (fst (snd cs)) (canto_chapter_of 1 2)"
    unfolding k by (simp add: sample_db_def)
  then have b: "\<exists>cs \<in> set (sb_chapters sample_db).
             \<exists>pre suf. fst (snd cs) = pre @ canto_chapter_of 1 2 @ suf"
    unfolding contains_iff .
  from a b show ?thesis
    using get_texts_from_chapter_fails_iff_no_title [of sample_db 1 2 empty_world]
    by (simp add: k)
qed

text \<open>
  Claim C10. When several catalog entries have a title containing
  \<^verbatim>\<open>SB <canto>.<chapter>:\<close>, the first of them in the order of the query result gives
  the span; whatever follows it in the catalog (other matching entries included) has no
  effect, and the call returns normally.
\<close>

theorem get_texts_from_chapter_first_match:
  assumes "sb_chapters db = pre @ chapter_set # post"
    and "\<forall>cs \<in> set pre. \<not> contains (fst (snd cs)) (canto_chapter_of canto chapter)"
    and "contains (fst (snd chapter_set)) (canto_chapter_of canto chapter)"
  shows "fst (get_texts_from_chapter db canto chapter w) =
           Inr (chapter_texts db (fst (snd (snd chapter_set))) (snd (snd (snd chapter_set))))"
  using assms by (simp add: fst_get_texts_from_chapter find_chapter_first)

theorem get_texts_from_chapter_first_match_witness:
  "contains ''SB 1.1: Questions by the Sages (copy)'' (canto_chapter_of 1 1) \<and>
   fst (get_texts_from_chapter sample_db 1 1 empty_world) = Inr (chapter_texts sample_db 10 12)"
proof -
  have k: "canto_chapter_of 1 1 = ''SB 1.1:''"
    by (simp add: canto_chapter_of_def str_int_def str_nat.simps digit_char_def)
  have "fst (get_texts_from_chapter sample_db 1 1 empty_world) =
          Inr (chapter_texts sample_db 10 12)"
    using get_texts_from_chapter_first_match
      [of sample_db "[]" "(''Canto 1'', ''SB 1.1: Questions by the Sages'', 10, 12)"
          "[(''Canto 1'', ''SB 1.2: Divinity and Divine Service'', 12, 20),
            (''Canto 1'', ''SB 1.1: Questions by the Sages (copy)'', 13, 13)]" 1 1 empty_world]
    by (simp add: sample_db_def k)
  then show ?thesis by (simp add: k)
qed

section \<open>Batches of the pipeline\<close>

lemma ceil_div_20:
  "(n + 19) div 20 = (if n mod 20 = 0 then n div 20 else Suc (n div 20))" for n :: nat
proof -
  define q r where "q = n div 20" and "r = n mod 20"
  have e: "n = r + q * 20" and r: "r < 20" by (simp_all add: q_def r_def)
  have "(r + 19) div 20 = (if r = 0 then 0 else 1)"
  proof (cases "r = 0")
    case True
    then show ?thesis by simp
  next
    case False
    with r have "20 \<le> r + 19" and "r + 19 < 40" by simp_all
    then have "(r + 19) div 20 = 1" by (simp add: div_nat_eqI)
    with False show ?thesis by simp
  qed
  moreover have "(n + 19) div 20 = (r + 19) div 20 + q"
  proof -
    have "(n + 19) div 20 = ((r + 19) + q * 20) div 20"
      by (subst e) (simp add: add.assoc add.commute add.left_commute)
    also have "\<dots> = (r + 19) div 20 + q" by simp
    finally show ?thesis .
  qed
  ultimately show ?thesis unfolding q_def[symmetric] r_def[symmetric] by simp
qed


lemma neg_div_20: "- (- int n div 20) = int ((n + 19) div 20)"
proof -
  have "- (- int n div 20) = (if int n mod 20 = 0 then int n div 20 else int n div 20 + 1)"
    by (simp add: zdiv_zminus1_eq_if)
  also have "\<dots> = int (if n mod 20 = 0 then n div 20 else Suc (n div 20))"
  proof -
    have m: "int n mod 20 = int (n mod 20)" and d: "int n div 20 = int (n div 20)"
      using zmod_int[of n 20] zdiv_int[of n 20] by simp_all
    show ?thesis unfolding m d by simp
  qed
  finally show ?thesis by (simp only: ceil_div_20)
qed

lemma max_iter_of_eq: "max_iter_of texts = int ((length texts + 19) div 20)"
proof -
  have "max_iter_of texts = \<lceil>(of_int (int (length texts)) :: rat) / of_int 20\<rceil>"
    by (simp add: max_iter_of_def)
  also have "\<dots> = - (- int (length texts) div 20)"
    by (rule ceiling_divide_eq_div)
  also have "\<dots> = int ((length texts + 19) div 20)"
    by (rule neg_div_20)
  finally show ?thesis .
qed

lemma nat_max_iter_of: "nat (max_iter_of texts) = (length texts + 19) div 20"
  unfolding max_iter_of_eq by simp

lemma slice_bound_nat: "j \<le> n \<Longrightarrow> slice_bound n (int j) = int j"
  by (simp add: slice_bound_def)

lemma batch_slice_eq:
  assumes "20 * i < length texts"
  shows "batch_slice texts (int i) = take (min 20 (length texts - 20 * i)) (drop (20 * i) texts)"
proof -
  let ?n = "length texts"
  let ?t = "min 20 (?n - 20 * i)"
  have "int (?n - 20 * i) = int ?n - 20 * int i"
    using assms by simp
  then have s: "min 20 (int ?n - 20 * int i) = int ?t"
    by (simp add: min_def)
  have le: "20 * i + ?t \<le> ?n" using assms by simp
  have a: "slice_bound ?n (20 * int i) = int (20 * i)"
    using slice_bound_nat[of "20 * i" ?n] assms by simp
  have b: "slice_bound ?n (20 * int i + int ?t) = int (20 * i + ?t)"
    using slice_bound_nat[OF le] by simp
  show ?thesis
    unfolding batch_slice_def py_slice_def Let_def s a b
    by (simp only: nat_int of_nat_add add_diff_cancel_left')
qed

lemma chapter_loop_run_batches:
  "k \<le> m \<Longrightarrow>
   chapter_loop svc canto chapter source_ref exclude_names_file texts (int k) (int m) w =
     run_batches (process_batch svc canto chapter source_ref exclude_names_file)
       (map (\<lambda>i. batch_slice texts (int i)) [k..<m]) w"
proof (induction "m - k" arbitrary: k w)
  case 0
  then show ?case by (simp add: chapter_loop.simps)
next
  case (Suc d)
  then have lt: "k < m" and d: "d = m - Suc k" and le: "Suc k \<le> m" by auto
  have u: "[k..<m] = k # [Suc k..<m]" using lt by (simp add: upt_conv_Cons)
  have i: "int k + 1 = int (Suc k)" by simp
  show ?case
    unfolding u
    by (subst chapter_loop.simps)
       (simp add: lt i Suc.hyps(1)[OF d le] split: prod.splits sum.splits del: of_nat_Suc)
qed

lemma concat_batches_take:
  "concat (map (\<lambda>i. take (min 20 (length xs - 20 * i)) (drop (20 * i) xs)) [0..<m]) =
     take (20 * m) xs"
proof (induction m)
  case 0
  then show ?case by simp
next
  case (Suc m)
  have "take (min 20 (length xs - 20 * m)) (drop (20 * m) xs) = take 20 (drop (20 * m) xs)"
    by (simp add: min_def)
  then show ?case
    using Suc by (simp add: take_add[symmetric] add.commute)
qed

lemma last_batch_size:
  fixes n :: nat
  assumes "0 < n"
  shows "n - 20 * ((n + 19) div 20 - 1) = (if n mod 20 = 0 then 20 else n mod 20) \<and>
         0 < (n + 19) div 20"
proof -
  define q r where "q = n div 20" and "r = n mod 20"
  have e: "20 * q + r = n" and r: "r < 20" by (simp_all add: q_def r_def)
  have c: "(n + 19) div 20 = (if r = 0 then q else Suc q)"
    unfolding q_def r_def by (rule ceil_div_20)
  show ?thesis
  proof (cases "r = 0")
    case True
    with e assms have "0 < q" by (cases q) auto
    with True e have "n - 20 * (q - 1) = 20" by arith
    with True \<open>0 < q\<close> show ?thesis unfolding c r_def[symmetric] by simp
  next
    case False
    with e have "n - 20 * q = r" by arith
    with False show ?thesis unfolding c r_def[symmetric] by simp
  qed
qed

lemma batches_eq:
  "batches texts =
     map (\<lambda>i. take (min 20 (length texts - 20 * i)) (drop (20 * i) texts))
         [0..<(length texts + 19) div 20]"
  unfolding batches_def nat_max_iter_of
  by (rule map_cong) (auto intro!: batch_slice_eq)


text \<open>
  Claim C5. With \<open>N\<close> verse units the pipeline handles the batches of \<open>batches texts\<close>
  one after the other from the first; there are \<open>\<lceil>N / 20\<rceil>\<close> of them; batch \<open>i\<close> is the
  slice of length \<open>min 20 (N - 20 * i)\<close> that starts at index \<open>20 * i\<close>, never empty;
  the last one has \<open>N mod 20\<close> units, or 20 when that is zero; and the batches laid end
  to end are the verse units, none missing and none twice.
\<close>

theorem pipeline_batches:
  "(fst (get_texts_from_chapter db canto chapter w) = Inr texts \<longrightarrow>
      get_names_from_chapter svc db canto chapter w =
        run_batches
          (process_batch svc canto chapter
             (source_ref_of canto chapter)
             (names_file canto chapter))
          (batches texts) (snd (get_texts_from_chapter db canto chapter w))) \<and>
   int (length (batches texts)) = \<lceil>real (length texts) / 20\<rceil> \<and>
   (\<forall>i < length (batches texts).
      batches texts ! i = take (min 20 (length texts - 20 * i)) (drop (20 * i) texts) \<and>
      length (batches texts ! i) = min 20 (length texts - 20 * i) \<and>
      batches texts ! i \<noteq> []) \<and>
   (texts \<noteq> [] \<longrightarrow>
      length (last (batches texts)) =
        (if length texts mod 20 = 0 then 20 else length texts mod 20)) \<and>
   concat (batches texts) = texts"
proof (intro conjI impI allI)
  assume "fst (get_texts_from_chapter db canto chapter w) = Inr texts"
  then have g: "get_texts_from_chapter db canto chapter w =
                  (Inr texts, snd (get_texts_from_chapter db canto chapter w))"
    by (metis prod.collapse)
  have m: "max_iter_of texts = int (nat (max_iter_of texts))"
    unfolding max_iter_of_eq by simp
  have "chapter_loop svc canto chapter source_ref exclude_names_file texts 0 (max_iter_of texts) w1
          = run_batches (process_batch svc canto chapter source_ref exclude_names_file)
              (batches texts) w1" for source_ref exclude_names_file w1
    using chapter_loop_run_batches[of 0 "nat (max_iter_of texts)" svc canto "chapter" source_ref
            exclude_names_file texts w1]
    unfolding batches_def m[symmetric] by simp
  then show "get_names_from_chapter svc db canto chapter w =
        run_batches
          (process_batch svc canto chapter
             (source_ref_of canto chapter)
             (names_file canto chapter))
          (batches texts) (snd (get_texts_from_chapter db canto chapter w))"
    unfolding get_names_from_chapter_def Let_def by (subst g) simp
next
  have "int (length (batches texts)) = max_iter_of texts"
    unfolding batches_def max_iter_of_eq by simp
  also have "\<dots> = \<lceil>real (length texts) / 20\<rceil>"
  proof -
    have "\<lceil>real (length texts) / 20\<rceil> =
            \<lceil>real_of_int (int (length texts)) / real_of_int 20\<rceil>"
      by simp
    also have "\<dots> = - (- int (length texts) div 20)"
      by (rule ceiling_divide_eq_div)
    also have "\<dots> = int ((length texts + 19) div 20)"
      by (rule neg_div_20)
    finally show ?thesis unfolding max_iter_of_eq by simp
  qed
  finally show "int (length (batches texts)) = \<lceil>real (length texts) / 20\<rceil>" .
next
  fix i assume i: "i < length (batches texts)"
  then have lt: "20 * i < length texts" unfolding batches_eq by simp
  from i show "batches texts ! i = take (min 20 (length texts - 20 * i)) (drop (20 * i) texts)"
    unfolding batches_eq by simp
  from i show "length (batches texts ! i) = min 20 (length texts - 20 * i)"
    unfolding batches_eq by simp
  from i lt show "batches texts ! i \<noteq> []"
    unfolding batches_eq by simp
next
  assume ne: "texts \<noteq> []"
  let ?n = "length texts"
  let ?m = "(?n + 19) div 20"
  have n0: "0 < ?n" using ne by simp
  have l: "?n - 20 * (?m - 1) = (if ?n mod 20 = 0 then 20 else ?n mod 20) \<and> 0 < ?m"
    using n0 by (rule last_batch_size)
  then have "last (batches texts) = take (min 20 (?n - 20 * (?m - 1))) (drop (20 * (?m - 1)) texts)"
    unfolding batches_eq by (simp add: last_map)
  then have "length (last (batches texts)) = min 20 (?n - 20 * (?m - 1))" by simp
  also have "\<dots> = (if ?n mod 20 = 0 then 20 else ?n mod 20)"
    using l by (simp add: min_def)
  finally show "length (last (batches texts)) =
        (if length texts mod 20 = 0 then 20 else length texts mod 20)" .
next
  show "concat (batches texts) = texts"
    unfolding batches_eq concat_batches_take by simp
qed


theorem pipeline_batches_witness:
  "int (length (batches (replicate 45 ''TEXT 1''))) = 3 \<and>
   length (last (batches (replicate 45 ''TEXT 1''))) = 5 \<and>
   batches (replicate 45 ''TEXT 1'') ! 2 = replicate 5 ''TEXT 1'' \<and>
   concat (batches (replicate 45 ''TEXT 1'')) = replicate 45 ''TEXT 1''"
proof -
  have c: "\<lceil>real 45 / 20\<rceil> = 3" by (simp add: ceiling_divide_eq_div_numeral)
  have n: "length (batches (replicate 45 ''TEXT 1'')) = 3"
    using pipeline_batches [of sample_db 1 1 empty_world "replicate 45 ''TEXT 1''"] c by simp
  then have "2 < length (batches (replicate 45 ''TEXT 1''))" by simp
  then show ?thesis
    using pipeline_batches [of sample_db 1 1 empty_world "replicate 45 ''TEXT 1''"] c
    by simp
qed

section \<open>Split points are the whole-word verse markers\<close>

lemma decimal_word: "is_decimal c \<Longrightarrow> is_word c"
  by (simp add: is_decimal_def is_word_def Let_def)

lemma letter_facts:
  "is_word CHR ''T''" "\<not> is_decimal CHR ''T''" "\<not> is_word CHR '' ''" "\<not> is_word CHR ''-''"
  "\<not> is_decimal CHR ''-''" "\<not> is_decimal CHR '' ''" "is_word CHR ''X''" "is_word CHR ''S''"
  "is_word CHR ''E''"
  by (simp_all add: is_word_def is_decimal_def code_point_def)

lemma word_boundary_simps:
  "word_boundary (Some p) (head r) = (is_word p \<noteq> word_at_start r)"
  "word_boundary prev (Some c) = ((case prev of None \<Rightarrow> False | Some p \<Rightarrow> is_word p) \<noteq> is_word c)"
  by (simp_all add: word_boundary_def head_def word_at_start_def split: list.splits)

lemma first_some_map_None: "(\<forall>x \<in> set xs. f x = None) \<Longrightarrow> first_some (map f xs) = None"
  by (induction xs) auto

lemma digits_plus_max:
  assumes "\<And>n. 1 \<le> n \<Longrightarrow> n < length (takeWhile is_decimal s) \<Longrightarrow>
             k (s ! (n - 1)) (drop n s) = None"
  shows "digits_plus s k =
           (if takeWhile is_decimal s = [] then None
            else map_option (\<lambda>r. length (takeWhile is_decimal s) + r)
                   (k (s ! (length (takeWhile is_decimal s) - 1)) (dropWhile is_decimal s)))"
proof (cases "length (takeWhile is_decimal s)")
  case 0
  then show ?thesis by (simp add: digits_plus_def)
next
  case (Suc j)
  let ?f = "\<lambda>n. map_option (\<lambda>r. n + r) (k (s ! (n - 1)) (drop n s))"
  have r: "rev [1..<Suc (Suc j)] = Suc j # rev [1..<Suc j]" by simp
  have "\<forall>n \<in> set (rev [1..<Suc j]). ?f n = None"
    using assms Suc by auto
  then have n: "first_some (map ?f (rev [1..<Suc j])) = None"
    by (rule first_some_map_None)
  have d: "dropWhile is_decimal s = drop (Suc j) s"
    using Suc by (simp add: dropWhile_eq_drop)
  have ne: "takeWhile is_decimal s \<noteq> []" using Suc by auto
  show ?thesis
    unfolding digits_plus_def Suc r d using n ne
    by (cases "k (s ! (Suc j - 1)) (drop (Suc j) s)") simp_all
qed

lemma takeWhile_nth_decimal:
  "n < length (takeWhile is_decimal s) \<Longrightarrow> is_decimal (s ! n)"
  by (metis nth_mem set_takeWhileD takeWhile_nth)

lemma drop_Cons_nth: "n < length s \<Longrightarrow> drop n s = s ! n # drop (Suc n) s"
  by (simp add: Cons_nth_drop_Suc)

lemma digits_then_boundary:
  "digits_plus s end_boundary =
     (if takeWhile is_decimal s \<noteq> [] \<and> \<not> word_at_start (dropWhile is_decimal s)
      then Some (length (takeWhile is_decimal s)) else None)"
proof -
  have inner: "end_boundary (s ! (n - 1)) (drop n s) = None"
    if "1 \<le> n" "n < length (takeWhile is_decimal s)" for n
  proof -
    from that have a: "is_word (s ! (n - 1))"
      by (intro decimal_word takeWhile_nth_decimal) simp
    from that have "n < length s"
      using length_takeWhile_le[of is_decimal s] by simp
    then have "drop n s = s ! n # drop (Suc n) s" by (rule drop_Cons_nth)
    moreover have "is_word (s ! n)" using that by (intro decimal_word takeWhile_nth_decimal)
    ultimately show ?thesis using a
      by (simp add: end_boundary_def word_boundary_simps word_at_start_def)
  qed
  have last_word: "is_word (s ! (length (takeWhile is_decimal s) - 1))"
    if "takeWhile is_decimal s \<noteq> []"
    using that by (intro decimal_word takeWhile_nth_decimal) simp
  have e: "digits_plus s end_boundary =
           (if takeWhile is_decimal s = [] then None
            else map_option (\<lambda>r. length (takeWhile is_decimal s) + r)
                   (end_boundary (s ! (length (takeWhile is_decimal s) - 1))
                      (dropWhile is_decimal s)))"
    by (rule digits_plus_max) (fact inner)
  show ?thesis
    using last_word by (simp add: e end_boundary_def word_boundary_simps)
qed

lemma digits_then_dash:
  "digits_plus s dash_digits =
     (if takeWhile is_decimal s = [] then None
      else case dropWhile is_decimal s of
             [] \<Rightarrow> None
           | c # r \<Rightarrow>
               if c = CHR ''-'' \<and> takeWhile is_decimal r \<noteq> [] \<and>
                  \<not> word_at_start (dropWhile is_decimal r)
               then Some (length (takeWhile is_decimal s) + Suc (length (takeWhile is_decimal r)))
               else None)"
proof -
  have inner: "dash_digits (s ! (n - 1)) (drop n s) = None"
    if "1 \<le> n" "n < length (takeWhile is_decimal s)" for n
  proof -
    from that have "n < length s"
      using length_takeWhile_le[of is_decimal s] by simp
    then have "drop n s = s ! n # drop (Suc n) s" by (rule drop_Cons_nth)
    moreover have "is_decimal (s ! n)" using that by (intro takeWhile_nth_decimal)
    ultimately show ?thesis
      using letter_facts by (auto simp: dash_digits_def)
  qed
  have e: "digits_plus s dash_digits =
           (if takeWhile is_decimal s = [] then None
            else map_option (\<lambda>r. length (takeWhile is_decimal s) + r)
                   (dash_digits (s ! (length (takeWhile is_decimal s) - 1))
                      (dropWhile is_decimal s)))"
    by (rule digits_plus_max) (fact inner)
  show ?thesis
  proof (cases "dropWhile is_decimal s")
    case Nil
    show ?thesis unfolding e dash_digits_def Nil by simp
  next
    case (Cons c r)
    show ?thesis unfolding e dash_digits_def Cons by (simp add: digits_then_boundary)
  qed
qed


lemma match_text_eq:
  "match_text s =
     (if prefix ''TEXT '' s \<and> takeWhile is_decimal (drop 5 s) \<noteq> [] \<and>
         \<not> word_at_start (dropWhile is_decimal (drop 5 s))
      then Some (5 + length (takeWhile is_decimal (drop 5 s))) else None)"
  by (simp add: match_text_def digits_then_boundary)

lemma match_texts_eq:
  "match_texts s =
     (if prefix ''TEXTS '' s \<and> takeWhile is_decimal (drop 6 s) \<noteq> [] then
        (case dropWhile is_decimal (drop 6 s) of
           [] \<Rightarrow> None
         | c # r \<Rightarrow>
             if c = CHR ''-'' \<and> takeWhile is_decimal r \<noteq> [] \<and>
                \<not> word_at_start (dropWhile is_decimal r)
             then Some (6 + (length (takeWhile is_decimal (drop 6 s)) +
                             Suc (length (takeWhile is_decimal r))))
             else None)
      else None)"
proof (cases "dropWhile is_decimal (drop 6 s)")
  case Nil
  show ?thesis unfolding match_texts_def digits_then_dash Nil by simp
next
  case (Cons c r)
  show ?thesis unfolding match_texts_def digits_then_dash Cons by simp
qed

lemma list_all_takeWhile: "list_all P (takeWhile P xs)"
  by (induction xs) auto

lemma match_text_sound:
  assumes "match_text s = Some n"
  shows "\<exists>m post. s = m @ post \<and> length m = n \<and> is_marker m \<and> \<not> word_at_start post"
proof -
  define r where "r = drop 5 s"
  define ds where "ds = takeWhile is_decimal r"
  define post where "post = dropWhile is_decimal r"
  from assms have p: "prefix ''TEXT '' s" and ne: "ds \<noteq> []" and b: "\<not> word_at_start post"
    and n: "n = 5 + length ds"
    unfolding match_text_eq r_def ds_def post_def by (auto split: if_splits)
  from p obtain r0 where "s = ''TEXT '' @ r0" by (auto simp: prefix_def)
  then have "s = ''TEXT '' @ r" unfolding r_def by simp
  moreover have "r = ds @ post" unfolding ds_def post_def by simp
  ultimately have s: "s = (''TEXT '' @ ds) @ post" by simp
  have "list_all is_decimal ds" unfolding ds_def by (rule list_all_takeWhile)
  with ne have "is_marker (''TEXT '' @ ds)" unfolding is_marker_def by blast
  with s b n show ?thesis
    by (intro exI[of _ "''TEXT '' @ ds"] exI[of _ post]) simp
qed

lemma match_texts_sound:
  assumes "match_texts s = Some n"
  shows "\<exists>m post. s = m @ post \<and> length m = n \<and> is_marker m \<and> \<not> word_at_start post"
proof -
  define r where "r = drop 6 s"
  define ds where "ds = takeWhile is_decimal r"
  from assms have p: "prefix ''TEXTS '' s" and ne: "ds \<noteq> []"
    unfolding match_texts_eq r_def ds_def by (auto split: if_splits)
  with assms obtain c r' where d: "dropWhile is_decimal r = c # r'"
    unfolding match_texts_eq r_def ds_def by (auto split: if_splits list.splits)
  define es where "es = takeWhile is_decimal r'"
  define post where "post = dropWhile is_decimal r'"
  from assms p ne d have c: "c = CHR ''-''" and ne2: "es \<noteq> []" and b: "\<not> word_at_start post"
    and n: "n = 6 + (length ds + Suc (length es))"
    unfolding match_texts_eq r_def[symmetric] ds_def[symmetric] es_def post_def
    by (auto split: if_splits)
  from p obtain r0 where "s = ''TEXTS '' @ r0" by (auto simp: prefix_def)
  then have "s = ''TEXTS '' @ r" unfolding r_def by simp
  moreover have "r = ds @ c # r'" unfolding ds_def d[symmetric] by simp
  moreover have "r' = es @ post" unfolding es_def post_def by simp
  ultimately have s: "s = (''TEXTS '' @ ds @ ''-'' @ es) @ post" using c by simp
  have "list_all is_decimal ds" "list_all is_decimal es"
    unfolding ds_def es_def by (rule list_all_takeWhile)+
  with ne ne2 have "is_marker (''TEXTS '' @ ds @ ''-'' @ es)" unfolding is_marker_def by blast
  with s b n show ?thesis
    by (intro exI[of _ "''TEXTS '' @ ds @ ''-'' @ es"] exI[of _ post]) simp
qed

lemma is_marker_head: "is_marker m \<Longrightarrow> \<exists>t. m = CHR ''T'' # t"
  by (auto simp: is_marker_def)

lemma match_marker_sound:
  assumes "match_marker prev s = Some n"
  shows "\<exists>m post. s = m @ post \<and> length m = n \<and> is_marker m \<and> \<not> word_at_start post \<and>
                   \<not> word_opt prev"
proof -
  from assms have wb: "word_boundary prev (head s)"
    and "match_text s = Some n \<or> match_texts s = Some n"
    by (auto simp: match_marker_def split: if_splits option.splits)
  then obtain m post where m: "s = m @ post" "length m = n" "is_marker m" "\<not> word_at_start post"
    using match_text_sound match_texts_sound by blast
  from m(1,3) obtain t where "s = CHR ''T'' # t" by (auto dest: is_marker_head)
  with wb have "\<not> word_opt prev"
    by (simp add: head_def word_boundary_simps word_opt_def letter_facts)
  with m show ?thesis by blast
qed

lemma no_word_start_no_digit: "\<not> word_at_start post \<Longrightarrow> takeWhile is_decimal post = []"
  by (cases post) (auto simp: word_at_start_def dest: decimal_word)

lemma digits_run:
  assumes "list_all is_decimal ds" "\<not> word_at_start post"
  shows "takeWhile is_decimal (ds @ post) = ds" "dropWhile is_decimal (ds @ post) = post"
proof -
  from assms(1) have a: "\<And>x. x \<in> set ds \<Longrightarrow> is_decimal x" by (simp add: list_all_iff)
  have t: "takeWhile is_decimal post = []" using assms(2) by (rule no_word_start_no_digit)
  then have d: "dropWhile is_decimal post = post"
    using takeWhile_dropWhile_id[of is_decimal post] by simp
  show "takeWhile is_decimal (ds @ post) = ds" using a t by simp
  show "dropWhile is_decimal (ds @ post) = post" using a d by simp
qed

lemma match_marker_complete:
  assumes "is_marker m" "\<not> word_at_start post" "\<not> word_opt prev"
  shows "match_marker prev (m @ post) = Some (length m)"
proof -
  from assms(1) obtain t where "m = CHR ''T'' # t" by (auto dest: is_marker_head)
  with assms(3) have wb: "word_boundary prev (head (m @ post))"
    by (simp add: head_def word_boundary_simps word_opt_def letter_facts)
  from assms(1) consider
      ds where "ds \<noteq> []" "list_all is_decimal ds" "m = ''TEXT '' @ ds"
    | ds es where "ds \<noteq> []" "list_all is_decimal ds" "es \<noteq> []" "list_all is_decimal es"
        "m = ''TEXTS '' @ ds @ ''-'' @ es"
    unfolding is_marker_def by blast
  then show ?thesis
  proof cases
    case 1
    have "match_text (m @ post) = Some (length m)"
      unfolding match_text_eq using 1 assms(2) digits_run[OF 1(2) assms(2)] by simp
    with wb show ?thesis by (simp add: match_marker_def)
  next
    case 2
    have n: "match_text (m @ post) = None"
      unfolding match_text_eq using 2 by simp
    have w: "\<not> word_at_start (''-'' @ es @ post)"
      by (simp add: word_at_start_def letter_facts)
    have "match_texts (m @ post) = Some (length m)"
      unfolding match_texts_eq
      using 2 assms(2) digits_run[OF 2(2) w] digits_run[OF 2(4) assms(2)] by simp
    with wb n show ?thesis by (simp add: match_marker_def)
  qed
qed


lemma word_at_end_iff: "word_at_end s \<longleftrightarrow> s \<noteq> [] \<and> is_word (last s)"
  by (cases s rule: rev_cases) (simp_all add: word_at_end_def word_at_start_def)

lemma word_at_start_append: "u \<noteq> [] \<Longrightarrow> word_at_start (u @ r) = word_at_start u"
  by (cases u) (simp_all add: word_at_start_def)

lemma is_marker_last: "is_marker m \<Longrightarrow> m \<noteq> [] \<and> is_word (last m)"
  by (auto simp: is_marker_def list_all_iff intro!: decimal_word)

lemma is_marker_inner_T:
  assumes "is_marker m" "m = a @ CHR ''T'' # b" "a \<noteq> []"
  shows "is_word (last a)"
  using assms letter_facts
  by (auto simp: is_marker_def Cons_eq_append_conv append_eq_append_conv2 append_eq_Cons_conv)


lemma match_marker_within:
  assumes "p \<noteq> []" "\<not> is_word (last p)"
  shows "match_marker prev (p @ CHR ''T'' # t) = Some n \<longleftrightarrow> match_marker prev p = Some n"
proof
  assume "match_marker prev (p @ CHR ''T'' # t) = Some n"
  then obtain m post where m: "p @ CHR ''T'' # t = m @ post" "length m = n" "is_marker m"
      "\<not> word_at_start post" "\<not> word_opt prev"
    using match_marker_sound by blast
  from m(1) obtain u where "p = m @ u \<and> u @ CHR ''T'' # t = post \<or>
                           p @ u = m \<and> CHR ''T'' # t = u @ post"
    unfolding append_eq_append_conv2 by blast
  then have "\<exists>u. p = m @ u \<and> u @ CHR ''T'' # t = post"
  proof
    assume "p = m @ u \<and> u @ CHR ''T'' # t = post"
    then show ?thesis by blast
  next
    assume c: "p @ u = m \<and> CHR ''T'' # t = u @ post"
    show ?thesis
    proof (cases u)
      case Nil
      with c show ?thesis by simp
    next
      case (Cons x u')
      with c have "m = p @ CHR ''T'' # u'" by auto
      with m(3) assms have False using is_marker_inner_T by blast
      then show ?thesis ..
    qed
  qed
  then obtain u where u: "p = m @ u" "post = u @ CHR ''T'' # t" by blast
  have "u \<noteq> []"
  proof
    assume "u = []"
    with u have "p = m" by simp
    with m(3) assms show False using is_marker_last by blast
  qed
  with u(2) m(4) have "\<not> word_at_start u" by (simp add: word_at_start_append)
  with m show "match_marker prev p = Some n"
    unfolding u(1) using match_marker_complete by blast
next
  assume "match_marker prev p = Some n"
  then obtain m u where m: "p = m @ u" "length m = n" "is_marker m"
      "\<not> word_at_start u" "\<not> word_opt prev"
    using match_marker_sound by blast
  have "u \<noteq> []"
  proof
    assume "u = []"
    with m have "p = m" by simp
    with m(3) assms show False using is_marker_last by blast
  qed
  with m(4) have "\<not> word_at_start (u @ CHR ''T'' # t)" by (simp add: word_at_start_append)
  then have "match_marker prev (m @ (u @ CHR ''T'' # t)) = Some (length m)"
    using m(3,5) by (intro match_marker_complete)
  with m show "match_marker prev (p @ CHR ''T'' # t) = Some n" by simp
qed

lemma match_marker_within_eq:
  assumes "p \<noteq> []" "\<not> is_word (last p)"
  shows "match_marker prev (p @ CHR ''T'' # t) = match_marker prev p"
proof (cases "match_marker prev p")
  case None
  show ?thesis
  proof (cases "match_marker prev (p @ CHR ''T'' # t)")
    case None
    with \<open>match_marker prev p = None\<close> show ?thesis by simp
  next
    case (Some n)
    then have "match_marker prev p = Some n" using match_marker_within[OF assms] by blast
    with None show ?thesis by simp
  qed
next
  case (Some n)
  then show ?thesis using match_marker_within[OF assms] by simp
qed

lemma re_split_from_not_Nil: "re_split_from prev piece s \<noteq> []"
  by (induction prev piece s rule: re_split_from.induct) (auto split: option.splits)

lemma match_marker_no_word_start: "\<not> word_at_start s \<Longrightarrow> match_marker prev s = None"
proof (cases "match_marker prev s")
  case None
  then show ?thesis by simp
next
  case (Some n)
  assume w: "\<not> word_at_start s"
  from Some obtain m post where "s = m @ post" "is_marker m"
    using match_marker_sound by blast
  then have "word_at_start s"
    by (auto dest!: is_marker_head simp: word_at_start_def letter_facts)
  with w show ?thesis by simp
qed

lemma re_split_from_prev_irrelevant:
  "\<not> word_at_start s \<Longrightarrow> re_split_from p piece s = re_split_from q piece s"
  by (cases s) (simp_all add: match_marker_no_word_start)

lemma re_split_from_at_marker:
  assumes "is_marker m" "\<not> word_at_start post" "\<not> word_opt prev"
  shows "re_split_from prev piece (m @ post) = piece # m # re_split_from (Some (last m)) [] post"
proof -
  from assms(1) obtain t where t: "m = CHR ''T'' # t" by (auto dest: is_marker_head)
  have mm: "match_marker prev (CHR ''T'' # t @ post) = Some (length m)"
    using match_marker_complete[OF assms] t by simp
  have l: "(CHR ''T'' # t @ post) ! (length m - 1) = last m"
    using t by (simp add: last_conv_nth nth_append flip: append_Cons)
  have tk: "take (length m) (CHR ''T'' # t @ post) = m" "drop (length m) (CHR ''T'' # t @ post) = post"
    using t by simp_all
  have "re_split_from prev piece (CHR ''T'' # t @ post) =
          piece # m # re_split_from (Some (last m)) [] post"
    by (subst re_split_from.simps(2)) (simp only: mm option.case l tk)
  then show ?thesis using t by simp
qed


lemma re_split_from_before_T:
  "(pre \<noteq> [] \<longrightarrow> \<not> is_word (last pre)) \<Longrightarrow>
   re_split_from prev piece (pre @ CHR ''T'' # t) =
     butlast (re_split_from prev piece pre) @
     re_split_from (if pre = [] then prev else Some (last pre))
       (last (re_split_from prev piece pre)) (CHR ''T'' # t)"
proof (induction prev piece pre rule: re_split_from.induct)
  case (1 prev piece)
  then show ?case by simp
next
  case (2 prev piece c cs)
  let ?pre = "c # cs"
  from 2(3) have nw: "\<not> is_word (last ?pre)" by simp
  have mm: "match_marker prev (c # cs @ CHR ''T'' # t) = match_marker prev ?pre"
    using match_marker_within_eq[of ?pre prev t] nw by simp
  show ?case
  proof (cases "match_marker prev ?pre")
    case None
    have l: "cs \<noteq> [] \<longrightarrow> \<not> is_word (last cs)" using nw by auto
    have p: "(if cs = [] then Some c else Some (last cs)) = Some (last ?pre)" by simp
    show ?thesis
      using 2(1)[OF None l] None mm unfolding p by simp
  next
    case (Some n)
    then obtain m u where m: "?pre = m @ u" "length m = n" "is_marker m"
      using match_marker_sound by blast
    have une: "u \<noteq> []"
    proof
      assume "u = []"
      with m have "?pre = m" by simp
      with m(3) nw show False using is_marker_last by metis
    qed
    then have lu: "last u = last ?pre" unfolding m(1) by simp
    from m(3) have mne: "m \<noteq> []" using is_marker_last by blast
    have tk: "take n ?pre = m" "drop n ?pre = u"
      unfolding m(1) using m(2) by simp_all
    have e: "c # cs @ CHR ''T'' # t = m @ (u @ CHR ''T'' # t)" using m(1) by (metis append_Cons append_assoc)
    have tk2: "take n (c # cs @ CHR ''T'' # t) = m" "drop n (c # cs @ CHR ''T'' # t) = u @ CHR ''T'' # t"
      unfolding e using m(2) by simp_all
    have "n - 1 < length m" using m(2) mne by (cases m) auto
    then have nth: "(c # cs @ CHR ''T'' # t) ! (n - 1) = ?pre ! (n - 1)"
      unfolding e m(1) by (simp only: nth_append if_True)
    let ?R = "re_split_from (Some (?pre ! (n - 1))) [] u"
    have R: "?R \<noteq> []" by (rule re_split_from_not_Nil)
    have l: "drop n ?pre \<noteq> [] \<longrightarrow> \<not> is_word (last (drop n ?pre))"
      unfolding tk lu using nw by simp
    have ih: "re_split_from (Some (?pre ! (n - 1))) [] (u @ CHR ''T'' # t) =
                butlast ?R @ re_split_from (Some (last ?pre)) (last ?R) (CHR ''T'' # t)"
      using 2(2)[OF Some l] une unfolding tk lu by simp
    have lhs: "re_split_from prev piece (?pre @ CHR ''T'' # t) =
                 piece # m # re_split_from (Some (?pre ! (n - 1))) [] (u @ CHR ''T'' # t)"
      using mm Some by (simp add: tk2 nth[unfolded One_nat_def])
    have rhs: "re_split_from prev piece ?pre = piece # m # ?R"
      using Some by (simp add: tk)
    show ?thesis
      unfolding lhs rhs ih using R by simp
  qed
qed

lemma no_match_no_split:
  "(\<And>p q. s = p @ q \<Longrightarrow> q \<noteq> [] \<Longrightarrow>
       match_marker (if p = [] then prev else Some (last p)) q = None) \<Longrightarrow>
   re_split_from prev piece s = [piece @ s]"
proof (induction s arbitrary: prev piece)
  case Nil
  then show ?case by simp
next
  case (Cons c cs)
  have a: "match_marker prev (c # cs) = None"
    using Cons.prems[of "[]" "c # cs"] by simp
  have "match_marker (if p = [] then Some c else Some (last p)) q = None"
    if "cs = p @ q" "q \<noteq> []" for p q
    using Cons.prems[of "c # p" q] that by (cases "p = []") simp_all
  then have "re_split_from (Some c) (piece @ [c]) cs = [(piece @ [c]) @ cs]"
    by (rule Cons.IH)
  with a show ?case by simp
qed

lemma re_split_at_marker:
  assumes "is_marker m" "\<not> word_at_end pre" "\<not> word_at_start post"
  shows "re_split (pre @ m @ post) = re_split pre @ m # re_split post"
proof -
  from assms(1) obtain t where t: "m = CHR ''T'' # t" by (auto dest: is_marker_head)
  let ?R = "re_split_from None [] pre"
  let ?prev = "if pre = [] then None else Some (last pre)"
  have nw: "pre \<noteq> [] \<longrightarrow> \<not> is_word (last pre)"
    using assms(2) by (auto simp: word_at_end_iff)
  then have wo: "\<not> word_opt ?prev" by (simp add: word_opt_def)
  have "re_split_from None [] (pre @ CHR ''T'' # (t @ post)) =
          butlast ?R @ re_split_from ?prev (last ?R) (CHR ''T'' # (t @ post))"
    using nw by (rule re_split_from_before_T)
  then have "re_split (pre @ m @ post) = butlast ?R @ re_split_from ?prev (last ?R) (m @ post)"
    unfolding re_split_def t by simp
  also have "re_split_from ?prev (last ?R) (m @ post) =
               last ?R # m # re_split_from (Some (last m)) [] post"
    using assms(1,3) wo by (rule re_split_from_at_marker)
  also have "re_split_from (Some (last m)) [] post = re_split post"
    unfolding re_split_def using assms(3) by (rule re_split_from_prev_irrelevant)
  also have "butlast ?R @ last ?R # m # re_split post = ?R @ m # re_split post"
    using re_split_from_not_Nil[of None "[]" pre]
    by (metis append_butlast_last_id append.assoc append_Cons append_Nil)
  finally show ?thesis unfolding re_split_def .
qed

lemma re_split_no_marker:
  assumes "\<And>pre m post. s = pre @ m @ post \<Longrightarrow> is_marker m \<Longrightarrow>
             word_at_end pre \<or> word_at_start post"
  shows "re_split s = [s]"
proof -
  have "match_marker (if p = [] then None else Some (last p)) q = None"
    if "s = p @ q" "q \<noteq> []" for p q
  proof (cases "match_marker (if p = [] then None else Some (last p)) q")
    case None
    then show ?thesis .
  next
    case (Some n)
    then obtain m post where m: "q = m @ post" "is_marker m" "\<not> word_at_start post"
        "\<not> word_opt (if p = [] then None else Some (last p))"
      using match_marker_sound by blast
    from m(4) have "\<not> word_at_end p"
      by (simp add: word_at_end_iff word_opt_def split: if_splits)
    with assms[of p m post] that(1) m(1,2,3) show ?thesis by simp
  qed
  then have "re_split_from None [] s = [[] @ s]"
    by (rule no_match_no_split)
  then show ?thesis by (simp add: re_split_def)
qed

lemmas matcher_defs =
  re_split_def match_marker_def match_text_def match_texts_def digits_plus_def
  word_boundary_def head_def is_word_def is_decimal_def code_point_def end_boundary_def
  dash_digits_def

text \<open>
  Claim C6. A verse marker standing as a whole word always is a split point: the split
  of \<open>pre @ m @ post\<close> is the split of \<open>pre\<close>, then \<open>m\<close>, then the split of
  \<open>post\<close>. Nothing else ever is: a text in which no verse marker stands as a whole word
  is not split, and wherever the matcher succeeds, what it matched is a verse marker with
  no word character before or after it. So \<^verbatim>\<open>TEXTUAL 12\<close>, \<^verbatim>\<open>CONTEXT 12\<close> and
  \<^verbatim>\<open>TEXT 12th\<close> give no split point, \<^verbatim>\<open>TEXT 12\<close> and \<^verbatim>\<open>TEXTS 3-5\<close> do.
\<close>

theorem verse_marker_split_points:
  "(is_marker m \<and> \<not> word_at_end pre \<and> \<not> word_at_start post \<longrightarrow>
      re_split (pre @ m @ post) = re_split pre @ m # re_split post) \<and>
   ((\<forall>pre m post. s = pre @ m @ post \<and> is_marker m \<longrightarrow> word_at_end pre \<or> word_at_start post)
      \<longrightarrow> re_split s = [s]) \<and>
   (match_marker prev s = Some n \<longrightarrow>
      is_marker (take n s) \<and> \<not> word_opt prev \<and> \<not> word_at_start (drop n s)) \<and>
   re_split ''TEXTUAL 12'' = [''TEXTUAL 12''] \<and>
   re_split ''see TEXTS 3-5.'' = [''see '', ''TEXTS 3-5'', ''.''] \<and>
   re_split ''CONTEXT 12 TEXT 12th TEXT 12'' = [''CONTEXT 12 TEXT 12th '', ''TEXT 12'', []]"
proof (intro conjI impI)
  assume "is_marker m \<and> \<not> word_at_end pre \<and> \<not> word_at_start post"
  then show "re_split (pre @ m @ post) = re_split pre @ m # re_split post"
    by (simp add: re_split_at_marker)
next
  assume "\<forall>pre m post. s = pre @ m @ post \<and> is_marker m \<longrightarrow> word_at_end pre \<or> word_at_start post"
  then show "re_split s = [s]" by (intro re_split_no_marker) blast
next
  assume "match_marker prev s = Some n"
  then obtain m post where "s = m @ post" "length m = n" "is_marker m" "\<not> word_at_start post"
      "\<not> word_opt prev"
    using match_marker_sound by blast
  then show "is_marker (take n s)" "\<not> word_opt prev" "\<not> word_at_start (drop n s)"
    by simp_all
next
  show "re_split ''TEXTUAL 12'' = [''TEXTUAL 12'']"
    by (simp add: matcher_defs)
  show "re_split ''see TEXTS 3-5.'' = [''see '', ''TEXTS 3-5'', ''.'']"
    by (simp add: matcher_defs)
  show "re_split ''CONTEXT 12 TEXT 12th TEXT 12'' = [''CONTEXT 12 TEXT 12th '', ''TEXT 12'', []]"
    by (simp add: matcher_defs)
qed

theorem verse_marker_split_points_witness:
  "is_marker ''TEXTS 3-5'' \<and> \<not> word_at_end ''see '' \<and> \<not> word_at_start '' and TEXTUAL 12'' \<and>
   re_split ''see TEXTS 3-5 and TEXTUAL 12'' = [''see '', ''TEXTS 3-5'', '' and TEXTUAL 12''] \<and>
   re_split ''TEXTUAL 12'' = [''TEXTUAL 12''] \<and>
   match_marker None ''TEXT 12.'' = Some 7 \<and> is_marker (take 7 ''TEXT 12.'')"
proof -
  have d: "list_all is_decimal ''3''" "list_all is_decimal ''5''"
    by (simp_all add: is_decimal_def code_point_def)
  have "''TEXTS 3-5'' = ''TEXTS '' @ ''3'' @ ''-'' @ ''5''" by simp
  with d have m: "is_marker ''TEXTS 3-5''"
    unfolding is_marker_def by (intro disjI2 exI[of _ "''3''"] exI[of _ "''5''"]) simp
  have e: "\<not> word_at_end ''see ''" "\<not> word_at_start '' and TEXTUAL 12''"
    by (simp_all add: word_at_end_def word_at_start_def is_word_def code_point_def)
  have p: "re_split ''see '' = [''see '']" "re_split '' and TEXTUAL 12'' = ['' and TEXTUAL 12'']"
    by (simp_all add: matcher_defs)
  have one: "re_split ''TEXTUAL 12'' = [''TEXTUAL 12'']"
    by (simp add: matcher_defs)
  have h: "\<forall>pre m post. ''TEXTUAL 12'' = pre @ m @ post \<and> is_marker m \<longrightarrow>
             word_at_end pre \<or> word_at_start post"
  proof (intro allI impI, rule ccontr)
    fix pre m post
    assume a: "''TEXTUAL 12'' = pre @ m @ post \<and> is_marker m"
      and n: "\<not> (word_at_end pre \<or> word_at_start post)"
    then have "re_split (pre @ m @ post) = re_split pre @ m # re_split post"
      using verse_marker_split_points [of m pre post] by simp
    with a one have "[''TEXTUAL 12''] = re_split pre @ m # re_split post" by simp
    then have "length [''TEXTUAL 12''] = length (re_split pre @ m # re_split post)" by simp
    moreover have "re_split pre \<noteq> []" unfolding re_split_def by (rule re_split_from_not_Nil)
    ultimately show False by (cases "re_split pre") simp_all
  qed
  have k: "match_marker None ''TEXT 12.'' = Some 7"
    by (simp add: matcher_defs)
  from m e one k show ?thesis
    using verse_marker_split_points [of "''TEXTS 3-5''" "''see ''" "'' and TEXTUAL 12''"
            "''TEXTUAL 12''" None 7]
          verse_marker_split_points [of "''TEXTS 3-5''" "''see ''" "'' and TEXTUAL 12''"
            "''TEXT 12.''" None 7] h
    by (simp add: p)
qed

section \<open>The verse segmenter on a sample chapter\<close>

text \<open>
  Rows 10 to 12 of the sample database are the chapter \<^verbatim>\<open>SB 1.1\<close>: a heading, then two
  verse markers each followed by its body.
\<close>

lemma sample_split:
  "re_split '' Chapter One  TEXT 1 om namo  bhagavate TEXTS 2-3  janmady  asya'' =
     ['' Chapter One  '', ''TEXT 1'', '' om namo  bhagavate '', ''TEXTS 2-3'', ''  janmady  asya'']"
  by (simp add: matcher_defs)

lemma sample_blob:
  "join '' '' (map re_sub_tags
      [''<p>Chapter One</p>'', ''TEXT 1<br>om namo'', '' bhagavate TEXTS 2-3 <i>janmady</i> asya'']) =
     '' Chapter One  TEXT 1 om namo  bhagavate TEXTS 2-3  janmady  asya''"
  by simp

lemma sample_texts: "chapter_texts sample_db 10 12 = [''TEXT 1'', ''TEXTS 2-3'']"
proof -
  have rows: "map snd (filter (\<lambda>row. fst row \<ge> 10 \<and> fst row \<le> 12) (texts_table sample_db)) =
      [''<p>Chapter One</p>'', ''TEXT 1<br>om namo'', '' bhagavate TEXTS 2-3 <i>janmady</i> asya'']"
    by (simp add: sample_db_def)
  have flt: "map strip (filter (\<lambda>piece. startswith (strip piece) [''TEXT '', ''TEXTS ''])
     ['' Chapter One  '', ''TEXT 1'', '' om namo  bhagavate '', ''TEXTS 2-3'', ''  janmady  asya'']) =
     [''TEXT 1'', ''TEXTS 2-3'']"
    by (simp add: strip_def startswith_def is_space_def code_point_def)
  show ?thesis
    unfolding chapter_texts_def Let_def rows sample_blob sample_split flt ..
qed

lemma canto_chapter_of_1_1: "canto_chapter_of 1 1 = ''SB 1.1:''"
  by (simp add: canto_chapter_of_def str_int_def str_nat.simps digit_char_def)

lemma sample_chapters:
  "sb_chapters sample_db =
     [(''Canto 1'', ''SB 1.1: Questions by the Sages'', 10, 12),
      (''Canto 1'', ''SB 1.2: Divinity and Divine Service'', 12, 20),
      (''Canto 1'', ''SB 1.1: Questions by the Sages (copy)'', 13, 13)]"
  by (simp add: sample_db_def)

lemma get_texts_from_chapter_eq:
  "get_texts_from_chapter db canto chapter w =
     (find_chapter db (canto_chapter_of canto chapter) (sb_chapters db),
      w\<lparr>files := (files w)(''sb_chapters.json'' \<mapsto> Json (JArr (map chapter_json (sb_chapters db))))\<rparr>)"
  by (simp add: get_texts_from_chapter_def list_all_sb_chapters_def write_json_def Let_def)

text \<open>
  Claim C1. The split does not keep a marker at the start of the piece that follows it:
  the capture group of the pattern makes \<^verbatim>\<open>re.split\<close> return every marker as a piece
  of its own, between the piece before it and the piece after it. The filter of line 135
  then keeps the pieces that start with \<^verbatim>\<open>TEXT \<close> or \<^verbatim>\<open>TEXTS \<close>, which are the
  markers, and drops the bodies. On the sample chapter the markup-free text is
  \<^verbatim>\<open> Chapter One  TEXT 1 om namo  bhagavate TEXTS 2-3  janmady  asya\<close>; the call returns
  the two markers and none of the words \<^verbatim>\<open>om namo bhagavate\<close> and \<^verbatim>\<open>janmady asya\<close>,
  where the claim, the docstring of the function (\<^verbatim>\<open>retrieve the full text for each
  text in a list\<close>, \<^verbatim>\<open>All the content pertaining to the specified chapter\<close>) and the
  comment of lines 113 to 119 have each returned piece hold the marker together with
  its body.
\<close>

theorem get_texts_from_chapter_returns_markers_only:
  "join '' '' (map re_sub_tags
      (map snd (filter (\<lambda>row. fst row \<ge> 10 \<and> fst row \<le> 12) (texts_table sample_db)))) =
     '' Chapter One  TEXT 1 om namo  bhagavate TEXTS 2-3  janmady  asya'' \<and>
   re_split '' Chapter One  TEXT 1 om namo  bhagavate TEXTS 2-3  janmady  asya'' =
     ['' Chapter One  '', ''TEXT 1'', '' om namo  bhagavate '', ''TEXTS 2-3'', ''  janmady  asya''] \<and>
   fst (get_texts_from_chapter sample_db 1 1 empty_world) = Inr [''TEXT 1'', ''TEXTS 2-3'']"
proof -
  have rows: "map snd (filter (\<lambda>row. fst row \<ge> 10 \<and> fst row \<le> 12) (texts_table sample_db)) =
      [''<p>Chapter One</p>'', ''TEXT 1<br>om namo'', '' bhagavate TEXTS 2-3 <i>janmady</i> asya'']"
    by (simp add: sample_db_def)
  have "fst (get_texts_from_chapter sample_db 1 1 empty_world) = Inr [''TEXT 1'', ''TEXTS 2-3'']"
    by (simp add: get_texts_from_chapter_eq sample_chapters canto_chapter_of_1_1 sample_texts)
  then show ?thesis
    unfolding rows sample_blob sample_split by simp
qed

section \<open>Chapter runs\<close>

text \<open>
  The loop of \<open>get_names_from_chapter\<close> is a sequential run over the batches of the
  chapter's texts.
\<close>

lemma names_file_1_1: "names_file 1 1 = ''sb_canto1_chapter1_names.json''"
  by (simp add: names_file_def str_int_def str_nat.simps digit_char_def)

lemma get_names_from_chapter_eq:
  "get_names_from_chapter svc db canto chapter w =
     (case get_texts_from_chapter db canto chapter w of
        (Inl e, w1) \<Rightarrow> (Inl e, w1)
      | (Inr texts, w1) \<Rightarrow>
          run_batches
            (process_batch svc canto chapter (source_ref_of canto chapter) (names_file canto chapter))
            (batches texts) w1)"
proof -
  have m: "max_iter_of texts = int (nat (max_iter_of texts))" for texts
    unfolding max_iter_of_eq by simp
  have "chapter_loop svc canto chapter source_ref exclude_names_file texts 0 (max_iter_of texts) w1
          = run_batches (process_batch svc canto chapter source_ref exclude_names_file)
              (batches texts) w1" for source_ref exclude_names_file w1 texts
    using chapter_loop_run_batches[of 0 "nat (max_iter_of texts)" svc canto "chapter" source_ref
            exclude_names_file texts w1]
    unfolding batches_def m[symmetric] by simp
  then show ?thesis
    unfolding get_names_from_chapter_def Let_def by (simp split: prod.splits sum.splits)
qed

lemmas batch_defs =
  process_batch_def extract_names_def existing_names_of_def load_existing_names_total
  load_existing_names_try_def read_json_def make_exclusion_text_def generate_content_def
  stub_service_def generate_request_def first_candidate_content_def response_of_def
  extract_names_to_json_def read_existing_data_def write_json_def Let_def
















text \<open>What one batch reads from the store and leaves in it.\<close>


lemma item_names_append:
  "item_names xs = Inr a \<Longrightarrow> item_names ys = Inr b \<Longrightarrow> item_names (xs @ ys) = Inr (a @ b)"
  by (induction xs arbitrary: a) (auto split: sum.splits)

lemma item_names_model_dump:
  "item_names (map model_dump ns) = Inr (map (\<lambda>n. JStr (name n)) ns)"
  by (induction ns) (auto simp: model_dump_def)

lemma names_file_not_Nil: "names_file canto chapter \<noteq> []"
  by (simp add: names_file_def)

lemma load_existing_names_stored:
  assumes "stored_sequence (fs path) = Some xs" "item_names xs = Inr old"
  shows "load_existing_names fs path = Inr old"
proof (cases "fs path")
  case None
  with assms show ?thesis
    by (simp add: load_existing_names_total load_existing_names_try_def read_json_def
          stored_sequence_def)
next
  case (Some f)
  with assms show ?thesis
    by (cases f)
       (auto simp: load_existing_names_total load_existing_names_try_def read_json_def
          stored_sequence_def split: json.splits)
qed

lemma process_batch_Inr:
  assumes "process_batch svc canto chapter source_ref (names_file canto chapter) batch w = (Inr (), w')"
  obtains existing_names exclusion_text first_response model_content second_response found
  where "load_existing_names (files w) (names_file canto chapter) = Inr existing_names"
    and "make_exclusion_text existing_names = Inr exclusion_text"
    and "svc (generate_request (Prompt (make_first_prompt (join '' '' batch) source_ref exclusion_text)))
           = Inr first_response"
    and "first_candidate_content first_response = Inr model_content"
    and "svc (generate_request (Chat
            [Some (Content ''user'' [make_first_prompt (join '' '' batch) source_ref exclusion_text]),
             model_content, Some (Content ''user'' [second_prompt source_ref])])) = Inr second_response"
    and "parsed second_response = Some found"
    and "extract_names_to_json canto chapter (Some found)
           (w\<lparr>calls := calls w @
              [generate_request (Prompt (make_first_prompt (join '' '' batch) source_ref exclusion_text)),
               generate_request (Chat
                 [Some (Content ''user'' [make_first_prompt (join '' '' batch) source_ref exclusion_text]),
                  model_content, Some (Content ''user'' [second_prompt source_ref])])]\<rparr>) = (Inr (), w')"
  using assms
  by (auto simp: process_batch_def extract_names_def existing_names_of_def names_file_not_Nil
        generate_content_def Let_def extract_names_to_json_def
      split: sum.splits prod.splits option.splits if_splits)



lemma extract_names_to_json_calls:
  "extract_names_to_json canto chapter found_names w = (r, w') \<Longrightarrow> calls w' = calls w"
  by (auto simp: extract_names_to_json_def Let_def split: option.splits sum.splits)

lemma process_batch_exclusions:
  assumes "process_batch svc canto chapter source_ref (names_file canto chapter) batch w = (Inr (), w')"
    and "stored_sequence (files w (names_file canto chapter)) = Some xs"
    and "item_names xs = Inr old"
  shows "\<exists>exclusion_text request2 response found.
           make_exclusion_text old = Inr exclusion_text \<and>
           svc request2 = Inr response \<and> parsed response = Some found \<and>
           calls w' = calls w @
             [generate_request
                (Prompt (make_first_prompt (join '' '' batch) source_ref exclusion_text)),
              request2] \<and>
           stored_sequence (files w' (names_file canto chapter)) = Some (xs @ map model_dump found) \<and>
           item_names (xs @ map model_dump found) = Inr (old @ map (\<lambda>n. JStr (name n)) found)"
proof -
  from assms(1) obtain existing_names exclusion_text first_response model_content
      second_response found
    where l: "load_existing_names (files w) (names_file canto chapter) = Inr existing_names"
      and e: "make_exclusion_text existing_names = Inr exclusion_text"
      and r2: "svc (generate_request (Chat
            [Some (Content ''user'' [make_first_prompt (join '' '' batch) source_ref exclusion_text]),
             model_content, Some (Content ''user'' [second_prompt source_ref])])) = Inr second_response"
      and p: "parsed second_response = Some found"
      and x: "extract_names_to_json canto chapter (Some found)
           (w\<lparr>calls := calls w @
              [generate_request (Prompt (make_first_prompt (join '' '' batch) source_ref exclusion_text)),
               generate_request (Chat
                 [Some (Content ''user'' [make_first_prompt (join '' '' batch) source_ref exclusion_text]),
                  model_content, Some (Content ''user'' [second_prompt source_ref])])]\<rparr>) = (Inr (), w')"
    by (rule process_batch_Inr)
  from l assms(2,3) have o: "existing_names = old"
    using load_existing_names_stored by fastforce
  let ?w1 = "w\<lparr>calls := calls w @
              [generate_request (Prompt (make_first_prompt (join '' '' batch) source_ref exclusion_text)),
               generate_request (Chat
                 [Some (Content ''user'' [make_first_prompt (join '' '' batch) source_ref exclusion_text]),
                  model_content, Some (Content ''user'' [second_prompt source_ref])])]\<rparr>"
  have "stored_sequence (files ?w1 (names_file canto chapter)) = Some xs"
    using assms(2) by simp
  then have "extract_names_to_json canto chapter (Some found) ?w1 =
      (Inr (), ?w1\<lparr>files := (files ?w1)(names_file canto chapter \<mapsto>
                          Json (JArr (xs @ map model_dump found)))\<rparr>)"
    using extract_names_to_json_appends by blast
  with x have w': "w' = ?w1\<lparr>files := (files ?w1)(names_file canto chapter \<mapsto>
                          Json (JArr (xs @ map model_dump found)))\<rparr>" by simp
  have s: "stored_sequence (files w' (names_file canto chapter)) = Some (xs @ map model_dump found)"
    unfolding w' by (simp add: stored_sequence_def)
  have c: "calls w' = calls w @
             [generate_request
                (Prompt (make_first_prompt (join '' '' batch) source_ref exclusion_text)),
              generate_request (Chat
                 [Some (Content ''user'' [make_first_prompt (join '' '' batch) source_ref exclusion_text]),
                  model_content, Some (Content ''user'' [second_prompt source_ref])])]"
    unfolding w' by simp
  have i: "item_names (xs @ map model_dump found) = Inr (old @ map (\<lambda>n. JStr (name n)) found)"
    using assms(3) item_names_model_dump by (rule item_names_append)
  from e o r2 p c s i show ?thesis by blast
qed

lemma run_batches_calls:
  "run_batches (process_batch svc canto chapter source_ref (names_file canto chapter)) bs w = (Inr (), w')
   \<Longrightarrow> \<exists>more. calls w' = calls w @ more"
proof (induction bs arbitrary: w)
  case Nil
  then show ?case by simp
next
  case (Cons b bs)
  let ?f = "process_batch svc canto chapter source_ref (names_file canto chapter)"
  from Cons.prems obtain w1 where 1: "?f b w = (Inr (), w1)"
    and 2: "run_batches ?f bs w1 = (Inr (), w')"
    by (auto split: prod.splits sum.splits)
  from 1 obtain more1 where "calls w1 = calls w @ more1"
    by (elim process_batch_Inr) (auto dest!: extract_names_to_json_calls)
  moreover from 2 obtain more2 where "calls w' = calls w1 @ more2"
    using Cons.IH by blast
  ultimately show ?case by simp
qed

lemma names_file_not_catalog: "names_file canto chapter \<noteq> ''sb_chapters.json''"
  by (simp add: names_file_def)

text \<open>The run of the chapter with twenty-one verse markers.\<close>

lemma long_chapter_texts: "chapter_texts long_db 1 1 = long_texts"
proof -
  have rows: "map snd (filter (\<lambda>row. fst row \<ge> 1 \<and> fst row \<le> 1) (texts_table long_db)) =
      [''TEXT 1 TEXT 2 TEXT 3 TEXT 4 TEXT 5 TEXT 6 TEXT 7 TEXT 8 TEXT 9 TEXT 10 TEXT 11 TEXT 12 TEXT 13 TEXT 14 TEXT 15 TEXT 16 TEXT 17 TEXT 18 TEXT 19 TEXT 20 TEXT 21'']"
    by (simp add: long_db_def)
  have fmt: "map re_sub_tags [''TEXT 1 TEXT 2 TEXT 3 TEXT 4 TEXT 5 TEXT 6 TEXT 7 TEXT 8 TEXT 9 TEXT 10 TEXT 11 TEXT 12 TEXT 13 TEXT 14 TEXT 15 TEXT 16 TEXT 17 TEXT 18 TEXT 19 TEXT 20 TEXT 21''] = [''TEXT 1 TEXT 2 TEXT 3 TEXT 4 TEXT 5 TEXT 6 TEXT 7 TEXT 8 TEXT 9 TEXT 10 TEXT 11 TEXT 12 TEXT 13 TEXT 14 TEXT 15 TEXT 16 TEXT 17 TEXT 18 TEXT 19 TEXT 20 TEXT 21'']"
    by simp
  have cat: "join '' '' [''TEXT 1 TEXT 2 TEXT 3 TEXT 4 TEXT 5 TEXT 6 TEXT 7 TEXT 8 TEXT 9 TEXT 10 TEXT 11 TEXT 12 TEXT 13 TEXT 14 TEXT 15 TEXT 16 TEXT 17 TEXT 18 TEXT 19 TEXT 20 TEXT 21''] = ''TEXT 1 TEXT 2 TEXT 3 TEXT 4 TEXT 5 TEXT 6 TEXT 7 TEXT 8 TEXT 9 TEXT 10 TEXT 11 TEXT 12 TEXT 13 TEXT 14 TEXT 15 TEXT 16 TEXT 17 TEXT 18 TEXT 19 TEXT 20 TEXT 21''"
    by simp
  have spl: "re_split ''TEXT 1 TEXT 2 TEXT 3 TEXT 4 TEXT 5 TEXT 6 TEXT 7 TEXT 8 TEXT 9 TEXT 10 TEXT 11 TEXT 12 TEXT 13 TEXT 14 TEXT 15 TEXT 16 TEXT 17 TEXT 18 TEXT 19 TEXT 20 TEXT 21'' =
     [[], ''TEXT 1'', '' '', ''TEXT 2'', '' '', ''TEXT 3'', '' '', ''TEXT 4'', '' '',
     ''TEXT 5'', '' '', ''TEXT 6'', '' '', ''TEXT 7'', '' '', ''TEXT 8'', '' '', ''TEXT 9'',
     '' '', ''TEXT 10'', '' '', ''TEXT 11'', '' '', ''TEXT 12'', '' '', ''TEXT 13'', '' '',
     ''TEXT 14'', '' '', ''TEXT 15'', '' '', ''TEXT 16'', '' '', ''TEXT 17'', '' '',
     ''TEXT 18'', '' '', ''TEXT 19'', '' '', ''TEXT 20'', '' '', ''TEXT 21'', []]"
    by (simp add: matcher_defs)
  have flt: "map strip (filter (\<lambda>piece. startswith (strip piece) [''TEXT '', ''TEXTS ''])
     [[], ''TEXT 1'', '' '', ''TEXT 2'', '' '', ''TEXT 3'', '' '', ''TEXT 4'', '' '',
     ''TEXT 5'', '' '', ''TEXT 6'', '' '', ''TEXT 7'', '' '', ''TEXT 8'', '' '', ''TEXT 9'',
     '' '', ''TEXT 10'', '' '', ''TEXT 11'', '' '', ''TEXT 12'', '' '', ''TEXT 13'', '' '',
     ''TEXT 14'', '' '', ''TEXT 15'', '' '', ''TEXT 16'', '' '', ''TEXT 17'', '' '',
     ''TEXT 18'', '' '', ''TEXT 19'', '' '', ''TEXT 20'', '' '', ''TEXT 21'', []]) = long_texts"
    by (simp add: strip_def startswith_def is_space_def code_point_def long_texts_def)
  show ?thesis
    unfolding chapter_texts_def Let_def rows fmt cat spl flt ..
qed

lemma long_batches:
  "batches long_texts =
     [[''TEXT 1'', ''TEXT 2'', ''TEXT 3'', ''TEXT 4'', ''TEXT 5'', ''TEXT 6'', ''TEXT 7'',
      ''TEXT 8'', ''TEXT 9'', ''TEXT 10'', ''TEXT 11'', ''TEXT 12'', ''TEXT 13'', ''TEXT 14'',
      ''TEXT 15'', ''TEXT 16'', ''TEXT 17'', ''TEXT 18'', ''TEXT 19'', ''TEXT 20''],
      [''TEXT 21'']]"
proof -
  have l: "length long_texts = 21" by (simp add: long_texts_def)
  have u: "[0..<(21 + 19) div 20] = [0, 1]" by (simp add: upt_rec)
  show ?thesis
    unfolding batches_eq l u by (simp add: long_texts_def)
qed


lemma long_chapters:
  "sb_chapters long_db = [(''Canto 1'', ''SB 1.1: Questions by the Sages'', 1, 1)]"
  by (simp add: long_db_def)

lemmas long_run_defs =
  get_names_from_chapter_eq get_texts_from_chapter_eq long_chapters canto_chapter_of_1_1
  long_chapter_texts long_batches batch_defs names_file_1_1 empty_world_def two_round_stub_def
  model_dump_def sample_B_def

lemma long_run_fst:
  "fst (get_names_from_chapter two_round_stub long_db 1 1 empty_world) = Inr ()"
  by (simp add: long_run_defs)

lemma long_run_calls:
  "calls (snd (get_names_from_chapter two_round_stub long_db 1 1 empty_world)) =
     [generate_request (Prompt (make_first_prompt
        ''TEXT 1 TEXT 2 TEXT 3 TEXT 4 TEXT 5 TEXT 6 TEXT 7 TEXT 8 TEXT 9 TEXT 10 TEXT 11 TEXT 12 TEXT 13 TEXT 14 TEXT 15 TEXT 16 TEXT 17 TEXT 18 TEXT 19 TEXT 20''
        (source_ref_of 1 1) [])),
      generate_request (Chat
        [Some (Content ''user'' [make_first_prompt
           ''TEXT 1 TEXT 2 TEXT 3 TEXT 4 TEXT 5 TEXT 6 TEXT 7 TEXT 8 TEXT 9 TEXT 10 TEXT 11 TEXT 12 TEXT 13 TEXT 14 TEXT 15 TEXT 16 TEXT 17 TEXT 18 TEXT 19 TEXT 20''
           (source_ref_of 1 1) []]),
         Some (Content ''model'' [''json'']),
         Some (Content ''user'' [second_prompt (source_ref_of 1 1)])]),
      generate_request (Prompt (make_first_prompt ''TEXT 21'' (source_ref_of 1 1)
        (exclusion_opening @ ''B'' @ exclusion_closing))),
      generate_request (Chat
        [Some (Content ''user'' [make_first_prompt ''TEXT 21'' (source_ref_of 1 1)
           (exclusion_opening @ ''B'' @ exclusion_closing)]),
         Some (Content ''model'' [''json'']),
         Some (Content ''user'' [second_prompt (source_ref_of 1 1)])])]"
  by (simp add: long_run_defs)


section \<open>The exclusion list of each batch\<close>

text \<open>
  Claim C2. The pipeline hands every batch the path of the store file, not a list of
  names, and \<open>extract_names\<close> loads the names from that file at the start of each batch.
  So the exclusion list is read again for every batch: when a run that succeeds has at
  least two batches and starts from a stored sequence with names \<open>old\<close>, the first
  request of the first batch carries the exclusion text of \<open>old\<close>, and the first request
  of the second batch carries the exclusion text of \<open>old\<close> followed by the names of the
  records that the first batch returned and appended.
\<close>

theorem exclusions_reloaded_each_batch:
  assumes "fst (get_texts_from_chapter db canto chapter w) = Inr texts"
    and "batches texts = batch1 # batch2 # later"
    and "get_names_from_chapter svc db canto chapter w = (Inr (), w')"
    and "stored_sequence (files w (names_file canto chapter)) = Some xs"
    and "item_names xs = Inr old"
  shows "\<exists>text1 text2 second1 second2 response found more.
           make_exclusion_text old = Inr text1 \<and>
           svc second1 = Inr response \<and> parsed response = Some found \<and>
           make_exclusion_text (old @ map (\<lambda>n. JStr (name n)) found) = Inr text2 \<and>
           calls w' = calls w @
             [generate_request
                (Prompt (make_first_prompt (join '' '' batch1) (source_ref_of canto chapter) text1)),
              second1,
              generate_request
                (Prompt (make_first_prompt (join '' '' batch2) (source_ref_of canto chapter) text2)),
              second2] @ more"
proof -
  let ?f = "process_batch svc canto chapter (source_ref_of canto chapter) (names_file canto chapter)"
  let ?w0 = "w\<lparr>files := (files w)(''sb_chapters.json'' \<mapsto>
                 Json (JArr (map chapter_json (sb_chapters db))))\<rparr>"
  from assms(1) have g: "get_texts_from_chapter db canto chapter w = (Inr texts, ?w0)"
    by (simp add: get_texts_from_chapter_eq)
  with assms(2,3) have r: "run_batches ?f (batch1 # batch2 # later) ?w0 = (Inr (), w')"
    by (simp add: get_names_from_chapter_eq)
  then obtain w1 w2 where 1: "?f batch1 ?w0 = (Inr (), w1)"
    and 2: "?f batch2 w1 = (Inr (), w2)"
    and 3: "run_batches ?f later w2 = (Inr (), w')"
    by (auto split: prod.splits sum.splits)
  have s0: "stored_sequence (files ?w0 (names_file canto chapter)) = Some xs"
    using assms(4) names_file_not_catalog by simp
  from process_batch_exclusions[OF 1 s0 assms(5)]
  obtain text1 second1 response found where
    a: "make_exclusion_text old = Inr text1" "svc second1 = Inr response"
       "parsed response = Some found"
       "calls w1 = calls ?w0 @
          [generate_request
             (Prompt (make_first_prompt (join '' '' batch1) (source_ref_of canto chapter) text1)),
           second1]"
       "stored_sequence (files w1 (names_file canto chapter)) = Some (xs @ map model_dump found)"
       "item_names (xs @ map model_dump found) = Inr (old @ map (\<lambda>n. JStr (name n)) found)"
    by blast
  from process_batch_exclusions[OF 2 a(5) a(6)]
  obtain text2 second2 where
    b: "make_exclusion_text (old @ map (\<lambda>n. JStr (name n)) found) = Inr text2"
       "calls w2 = calls w1 @
          [generate_request
             (Prompt (make_first_prompt (join '' '' batch2) (source_ref_of canto chapter) text2)),
           second2]"
    by blast
  from run_batches_calls[OF 3] obtain more where m: "calls w' = calls w2 @ more" by blast
  have "calls w' = calls w @
             [generate_request
                (Prompt (make_first_prompt (join '' '' batch1) (source_ref_of canto chapter) text1)),
              second1,
              generate_request
                (Prompt (make_first_prompt (join '' '' batch2) (source_ref_of canto chapter) text2)),
              second2] @ more"
    unfolding m b(2) a(4) by simp
  with a(1,2,3) b(1) show ?thesis by blast
qed


theorem exclusions_reloaded_each_batch_witness:
  "\<exists>text1 text2 second1 second2 response found more.
     make_exclusion_text [] = Inr text1 \<and>
     two_round_stub second1 = Inr response \<and> parsed response = Some found \<and>
     make_exclusion_text ([] @ map (\<lambda>n. JStr (name n)) found) = Inr text2 \<and>
     calls (snd (get_names_from_chapter two_round_stub long_db 1 1 empty_world)) =
       calls empty_world @
         [generate_request (Prompt (make_first_prompt
            (join '' '' (take 20 long_texts)) (source_ref_of 1 1) text1)),
          second1,
          generate_request (Prompt (make_first_prompt
            (join '' '' [''TEXT 21'']) (source_ref_of 1 1) text2)),
          second2] @ more"
proof -
  have t: "fst (get_texts_from_chapter long_db 1 1 empty_world) = Inr long_texts"
    by (simp add: get_texts_from_chapter_eq long_chapters canto_chapter_of_1_1 long_chapter_texts)
  have b: "batches long_texts = take 20 long_texts # [''TEXT 21''] # []"
    unfolding long_batches by (simp add: long_texts_def)
  have r: "get_names_from_chapter two_round_stub long_db 1 1 empty_world =
             (Inr (), snd (get_names_from_chapter two_round_stub long_db 1 1 empty_world))"
    using long_run_fst by (metis prod.collapse)
  have s: "stored_sequence (files empty_world (names_file 1 1)) = Some []"
    by (simp add: stored_sequence_def empty_world_def)
  have i: "item_names [] = Inr []" by simp
  show ?thesis
    by (rule exclusions_reloaded_each_batch [OF t b r s i])
qed

text \<open>
  Against the claim as written (one exclusion set per run, the same for every batch): in
  the run of the chapter with twenty-one verse markers from an empty store, the request
  of the first batch carries no exclusion text, and the request of the second batch
  excludes the name \<open>B\<close> that the first batch appended.
\<close>

theorem exclusions_fixed_for_run_counterexample:
  "load_existing_names (files empty_world) (names_file 1 1) = Inr [] \<and>
   make_exclusion_text [] = Inr [] \<and>
   exclusion_opening @ ''B'' @ exclusion_closing \<noteq> [] \<and>
   fst (get_names_from_chapter two_round_stub long_db 1 1 empty_world) = Inr () \<and>
   calls (snd (get_names_from_chapter two_round_stub long_db 1 1 empty_world)) ! 0 =
     generate_request (Prompt (make_first_prompt
        ''TEXT 1 TEXT 2 TEXT 3 TEXT 4 TEXT 5 TEXT 6 TEXT 7 TEXT 8 TEXT 9 TEXT 10 TEXT 11 TEXT 12 TEXT 13 TEXT 14 TEXT 15 TEXT 16 TEXT 17 TEXT 18 TEXT 19 TEXT 20''
        (source_ref_of 1 1) [])) \<and>
   calls (snd (get_names_from_chapter two_round_stub long_db 1 1 empty_world)) ! 2 =
     generate_request (Prompt (make_first_prompt ''TEXT 21'' (source_ref_of 1 1)
        (exclusion_opening @ ''B'' @ exclusion_closing)))"
  by (simp add: long_run_calls long_run_fst)
     (simp add: load_existing_names_total load_existing_names_try_def read_json_def
        make_exclusion_text_def empty_world_def)

section \<open>What the driver catches\<close>






end
